theory Spec2Isabelle
  imports Complex_Main "HOL-Library.Multiset"
begin

section \<open>Numbers, cities and individuals\<close>

text \<open>
  The engine of \<^verbatim>\<open>TSPGeneticAlgorithm.tsx\<close> computes with JavaScript numbers. A number is
  modelled as a real or one of the three special values that division by zero and the
  initial best-ever record (\<^verbatim>\<open>length: Infinity\<close>) bring in. The quotient of a division is
  rounded to the nearest double, ties to even, as the machine does it: which individual has
  the highest fitness depends on that rounding. Sums, differences and products are kept
  exact; no proof below uses a property of their values beyond the sign of a difference,
  which rounding keeps. The exponent range is not bounded (no overflow of a finite result,
  no subnormals), and a zero is \<^verbatim>\<open>+0\<close>.
\<close>

text \<open>The integer nearest to \<open>y\<close>, the even one of two that are equally near.\<close>

definition rne :: "real \<Rightarrow> int" where
  "rne y =
     (let f = \<lfloor>y\<rfloor>; d = y - of_int f
      in if d < 1 / 2 then f else if 1 / 2 < d then f + 1 else if even f then f else f + 1)"

text \<open>
  The double nearest to \<open>v\<close>: with \<open>e\<close> the exponent of \<open>v\<close>, that is \<open>2 powi e \<le> \<bar>v\<bar> < 2 powi (e + 1)\<close>,
  the doubles around \<open>v\<close> are the multiples of \<open>2 powi (e - 52)\<close> (a significand of 53 bits).
\<close>

definition round_double :: "real \<Rightarrow> real" where
  "round_double v =
     (if v = 0 then 0
      else let e = \<lfloor>log 2 \<bar>v\<bar>\<rfloor>; u = 2 powi (e - 52)
           in u * of_int (rne (v / u)))"

datatype jsnum = Fin real | PInf | NInf | NaN

fun js_neg :: "jsnum \<Rightarrow> jsnum" where
  "js_neg (Fin a) = Fin (- a)"
| "js_neg PInf = NInf"
| "js_neg NInf = PInf"
| "js_neg NaN = NaN"

fun js_add :: "jsnum \<Rightarrow> jsnum \<Rightarrow> jsnum" where
  "js_add (Fin a) (Fin b) = Fin (a + b)"
| "js_add NaN _ = NaN"
| "js_add _ NaN = NaN"
| "js_add PInf NInf = NaN"
| "js_add NInf PInf = NaN"
| "js_add PInf _ = PInf"
| "js_add NInf _ = NInf"
| "js_add _ PInf = PInf"
| "js_add _ NInf = NInf"

definition js_sub :: "jsnum \<Rightarrow> jsnum \<Rightarrow> jsnum" where
  "js_sub a b = js_add a (js_neg b)"

fun js_mul :: "jsnum \<Rightarrow> jsnum \<Rightarrow> jsnum" where
  "js_mul (Fin a) (Fin b) = Fin (a * b)"
| "js_mul NaN _ = NaN"
| "js_mul _ NaN = NaN"
| "js_mul (Fin a) PInf = (if a = 0 then NaN else if 0 < a then PInf else NInf)"
| "js_mul (Fin a) NInf = (if a = 0 then NaN else if 0 < a then NInf else PInf)"
| "js_mul PInf (Fin b) = (if b = 0 then NaN else if 0 < b then PInf else NInf)"
| "js_mul NInf (Fin b) = (if b = 0 then NaN else if 0 < b then NInf else PInf)"
| "js_mul PInf PInf = PInf"
| "js_mul NInf NInf = PInf"
| "js_mul PInf NInf = NInf"
| "js_mul NInf PInf = NInf"

fun js_div :: "jsnum \<Rightarrow> jsnum \<Rightarrow> jsnum" where
  "js_div (Fin a) (Fin b) =
     (if b = 0 then (if a = 0 then NaN else if 0 < a then PInf else NInf)
      else Fin (round_double (a / b)))"
| "js_div NaN _ = NaN"
| "js_div _ NaN = NaN"
| "js_div (Fin a) PInf = Fin 0"
| "js_div (Fin a) NInf = Fin 0"
| "js_div PInf (Fin b) = (if 0 \<le> b then PInf else NInf)"
| "js_div NInf (Fin b) = (if 0 \<le> b then NInf else PInf)"
| "js_div _ _ = NaN"

text \<open>The comparisons \<^verbatim>\<open><\<close> and \<^verbatim>\<open>>=\<close>: both are false as soon as one side is \<^verbatim>\<open>NaN\<close>.\<close>

fun js_lt :: "jsnum \<Rightarrow> jsnum \<Rightarrow> bool" where
  "js_lt (Fin a) (Fin b) = (a < b)"
| "js_lt NaN _ = False"
| "js_lt _ NaN = False"
| "js_lt PInf _ = False"
| "js_lt _ NInf = False"
| "js_lt _ PInf = True"
| "js_lt NInf _ = True"

fun js_ge :: "jsnum \<Rightarrow> jsnum \<Rightarrow> bool" where
  "js_ge (Fin a) (Fin b) = (b \<le> a)"
| "js_ge NaN _ = False"
| "js_ge _ NaN = False"
| "js_ge PInf _ = True"
| "js_ge _ NInf = True"
| "js_ge _ PInf = False"
| "js_ge NInf _ = False"

text \<open>
  \<^verbatim>\<open>interface City { id; x; y }\<close>. The coordinates are finite: \<^verbatim>\<open>generateCities\<close> draws
  them inside the canvas.
\<close>

record City =
  city_id :: nat
  city_x :: real
  city_y :: real

text \<open>\<^verbatim>\<open>interface Individual { path; fitness; length }\<close>.\<close>

record Individual =
  path :: "City list"
  fitness :: jsnum
  length_val :: jsnum

text \<open>\<^verbatim>\<open>interface GAConfig\<close>; the two counts are natural numbers, the rates finite reals.\<close>

record GAConfig =
  cityCount :: nat
  populationSize :: nat
  mutationRate :: real
  crossoverRate :: real
  generations :: nat

section \<open>Path length and fitness\<close>

text \<open>\<^verbatim>\<open>Math.hypot(dx, dy)\<close>.\<close>

definition hypot :: "real \<Rightarrow> real \<Rightarrow> real" where
  "hypot dx dy = sqrt (dx\<^sup>2 + dy\<^sup>2)"

text \<open>
  \<^verbatim>\<open>calculatePathLength\<close>: the loop over \<^verbatim>\<open>i = 0 .. path.length - 1\<close> adds the distance from
  \<^verbatim>\<open>path[i]\<close> to \<^verbatim>\<open>path[(i + 1) % path.length]\<close>. Every index it reads is in range.
\<close>

definition edge_len :: "City list \<Rightarrow> nat \<Rightarrow> real" where
  "edge_len p i =
     (let curr = p ! i; nxt = p ! ((i + 1) mod length p)
      in hypot (city_x nxt - city_x curr) (city_y nxt - city_y curr))"

definition calculatePathLength :: "City list \<Rightarrow> real" where
  "calculatePathLength p = fold (\<lambda>i len. len + edge_len p i) [0..<length p] 0"

text \<open>\<^verbatim>\<open>calculateFitness\<close>: \<^verbatim>\<open>1 / individual.length\<close>, with nothing around the division.\<close>

definition calculateFitness :: "Individual \<Rightarrow> jsnum" where
  "calculateFitness ind = js_div (Fin 1) (length_val ind)"

text \<open>The individual the source builds from a path: length first, then fitness.\<close>

definition mk_individual :: "City list \<Rightarrow> Individual" where
  "mk_individual p =
     (let len = Fin (calculatePathLength p);
          fit = calculateFitness \<lparr>path = p, fitness = Fin 0, length_val = len\<rparr>
      in \<lparr>path = p, fitness = fit, length_val = len\<rparr>)"

section \<open>Arrays, the random source and sorting\<close>

text \<open>
  Reading \<^verbatim>\<open>.path\<close>, \<^verbatim>\<open>.id\<close> or \<^verbatim>\<open>.x\<close> of \<^verbatim>\<open>undefined\<close> throws a \<^verbatim>\<open>TypeError\<close>; it is the only
  exception the engine can raise.
\<close>

datatype error = TypeError

text \<open>
  An entry of the child array of \<^verbatim>\<open>crossover\<close>, typed \<^verbatim>\<open>(City | null)[]\<close>; a read past the end
  of an array gives \<^verbatim>\<open>undefined\<close>, which may be stored too.
\<close>

datatype jsval = Null | Undefined | Obj City

text \<open>\<^verbatim>\<open>path[i]\<close> on a path of cities, and \<^verbatim>\<open>a[i]\<close> on an array of entries.\<close>

definition js_read :: "City list \<Rightarrow> nat \<Rightarrow> jsval" where
  "js_read p i = (if i < length p then Obj (p ! i) else Undefined)"

definition js_get :: "jsval list \<Rightarrow> nat \<Rightarrow> jsval" where
  "js_get a i = (if i < length a then a ! i else Undefined)"

text \<open>
  \<^verbatim>\<open>a[i] = v\<close>: a write at or past the end grows the array. The indices the engine writes
  are at most the length, where nothing lies between the old end and \<^verbatim>\<open>i\<close>; beyond that the
  gap is filled with \<^verbatim>\<open>undefined\<close>.
\<close>

definition js_set :: "jsval list \<Rightarrow> nat \<Rightarrow> jsval \<Rightarrow> jsval list" where
  "js_set a i v =
     (if i < length a then a[i := v] else a @ replicate (i - length a) Undefined @ [v])"

text \<open>
  All cities of an array, when every entry is one: \<^verbatim>\<open>calculatePathLength\<close> reads \<^verbatim>\<open>.x\<close> of
  every entry of the path it is given, so it throws on any other array.
\<close>

fun cities_of :: "jsval list \<Rightarrow> City list option" where
  "cities_of [] = Some []"
| "cities_of (Obj c # vs) = (case cities_of vs of None \<Rightarrow> None | Some cs \<Rightarrow> Some (c # cs))"
| "cities_of (_ # vs) = None"

text \<open>
  The random source: the \<open>k\<close>-th call of \<^verbatim>\<open>Math.random()\<close> returns \<open>rnd k\<close>, a value in
  \<open>[0, 1)\<close>. Every function that draws takes the position of its first draw and returns
  the position after its last.
\<close>

type_synonym rng = "nat \<Rightarrow> real"

definition unit_draws :: "rng \<Rightarrow> bool" where
  "unit_draws rnd = (\<forall>k. 0 \<le> rnd k \<and> rnd k < 1)"

text \<open>\<^verbatim>\<open>Math.floor(r * n)\<close> for a draw \<open>r\<close>.\<close>

definition rand_index :: "real \<Rightarrow> nat \<Rightarrow> nat" where
  "rand_index r n = nat \<lfloor>r * real n\<rfloor>"

text \<open>
  \<^verbatim>\<open>Array.prototype.sort(compare)\<close> is the platform's: an insertion sort stands for it, left
  to right, placing each element before the first one that \<^verbatim>\<open>compare\<close> puts after it
  (a negative result), so that it is stable. For a comparator that orders its arguments
  consistently every stable sort returns this array; for the random comparator of
  \<^verbatim>\<open>initPopulation\<close> the algorithm decides which permutation comes out. The comparator may
  draw random numbers, so it threads a state.
\<close>

fun js_insert ::
  "('s \<Rightarrow> 'a \<Rightarrow> 'a \<Rightarrow> jsnum \<times> 's) \<Rightarrow> 'a \<Rightarrow> 'a list \<Rightarrow> 's \<Rightarrow> 'a list \<times> 's" where
  "js_insert cmp v [] s = ([v], s)"
| "js_insert cmp v (y # ys) s =
     (case cmp s v y of
        (r, s') \<Rightarrow>
          if js_lt r (Fin 0) then (v # y # ys, s')
          else (case js_insert cmp v ys s' of (zs, s'') \<Rightarrow> (y # zs, s'')))"

fun js_sort_from ::
  "('s \<Rightarrow> 'a \<Rightarrow> 'a \<Rightarrow> jsnum \<times> 's) \<Rightarrow> 'a list \<Rightarrow> 'a list \<Rightarrow> 's \<Rightarrow> 'a list \<times> 's" where
  "js_sort_from cmp acc [] s = (acc, s)"
| "js_sort_from cmp acc (v # vs) s =
     (case js_insert cmp v acc s of (acc', s') \<Rightarrow> js_sort_from cmp acc' vs s')"

definition js_sort :: "('s \<Rightarrow> 'a \<Rightarrow> 'a \<Rightarrow> jsnum \<times> 's) \<Rightarrow> 'a list \<Rightarrow> 's \<Rightarrow> 'a list \<times> 's" where
  "js_sort cmp vs s = js_sort_from cmp [] vs s"

text \<open>A comparator without effects, and \<^verbatim>\<open>[...xs].sort(f)\<close> with one.\<close>

definition pure_cmp :: "('a \<Rightarrow> 'a \<Rightarrow> jsnum) \<Rightarrow> unit \<Rightarrow> 'a \<Rightarrow> 'a \<Rightarrow> jsnum \<times> unit" where
  "pure_cmp f s a b = (f a b, s)"

definition sorted_copy :: "('a \<Rightarrow> 'a \<Rightarrow> jsnum) \<Rightarrow> 'a list \<Rightarrow> 'a list" where
  "sorted_copy f vs = fst (js_sort (pure_cmp f) vs ())"

text \<open>The three comparators of the source.\<close>

definition by_fitness_desc :: "Individual \<Rightarrow> Individual \<Rightarrow> jsnum" where
  "by_fitness_desc a b = js_sub (fitness b) (fitness a)"

definition by_length_asc :: "Individual \<Rightarrow> Individual \<Rightarrow> jsnum" where
  "by_length_asc a b = js_sub (length_val a) (length_val b)"

definition random_cmp :: "rng \<Rightarrow> nat \<Rightarrow> City \<Rightarrow> City \<Rightarrow> jsnum \<times> nat" where
  "random_cmp rnd k a b = (js_sub (Fin (rnd k)) (Fin (1 / 2)), Suc k)"

section \<open>Cities and the initial population\<close>

definition canvasWidth :: real where
  "canvasWidth = 800"

definition canvasHeight :: real where
  "canvasHeight = 600"

text \<open>\<^verbatim>\<open>generateCities\<close>: city \<open>i\<close> takes two draws, \<open>x\<close> first.\<close>

definition generateCities :: "rng \<Rightarrow> nat \<Rightarrow> nat \<Rightarrow> City list \<times> nat" where
  "generateCities rnd k n =
     (map (\<lambda>i. \<lparr>city_id = i,
                 city_x = rnd (k + 2 * i) * (canvasWidth - 40) + 20,
                 city_y = rnd (k + 2 * i + 1) * (canvasHeight - 40) + 20\<rparr>) [0..<n],
      k + 2 * n)"

text \<open>\<^verbatim>\<open>initPopulation\<close>: each individual is a copy of the cities sorted with a random comparator.\<close>

fun initPopulation :: "rng \<Rightarrow> nat \<Rightarrow> City list \<Rightarrow> nat \<Rightarrow> Individual list \<times> nat" where
  "initPopulation rnd k cs 0 = ([], k)"
| "initPopulation rnd k cs (Suc n) =
     (case js_sort (random_cmp rnd) cs k of
        (p, k') \<Rightarrow>
          (case initPopulation rnd k' cs n of
             (rest, k'') \<Rightarrow> (mk_individual p # rest, k'')))"

section \<open>Selection\<close>

text \<open>
  \<^verbatim>\<open>select\<close>: the walk returns the first individual whose running sum reaches \<^verbatim>\<open>randomNum\<close>;
  after the loop comes \<^verbatim>\<open>population[0]\<close>, which is \<^verbatim>\<open>undefined\<close> (\<open>None\<close>) for an empty array.
\<close>

definition totalFitness :: "Individual list \<Rightarrow> jsnum" where
  "totalFitness pop = foldl (\<lambda>sum ind. js_add sum (fitness ind)) (Fin 0) pop"

fun select_walk :: "jsnum \<Rightarrow> jsnum \<Rightarrow> Individual list \<Rightarrow> Individual option" where
  "select_walk randomNum cumulativeFitness [] = None"
| "select_walk randomNum cumulativeFitness (ind # rest) =
     (let c = js_add cumulativeFitness (fitness ind)
      in if js_ge c randomNum then Some ind else select_walk randomNum c rest)"

definition select :: "rng \<Rightarrow> nat \<Rightarrow> Individual list \<Rightarrow> Individual option \<times> nat" where
  "select rnd k pop =
     (let randomNum = js_mul (Fin (rnd k)) (totalFitness pop)
      in (case select_walk randomNum (Fin 0) pop of
            Some ind \<Rightarrow> Some ind
          | None \<Rightarrow> (case pop of [] \<Rightarrow> None | first # _ \<Rightarrow> Some first),
          Suc k))"

section \<open>Crossover and mutation\<close>

text \<open>The segment copy: \<^verbatim>\<open>for (i = min; i <= max; i++) child[i] = parent1.path[i]\<close>.\<close>

definition copy_segment :: "City list \<Rightarrow> nat \<Rightarrow> nat \<Rightarrow> jsval list \<Rightarrow> jsval list" where
  "copy_segment p1 mn mx child = fold (\<lambda>i ch. js_set ch i (js_read p1 i)) [mn..<Suc mx] child"

text \<open>\<^verbatim>\<open>c?.id === k\<close>.\<close>

fun has_id :: "jsval \<Rightarrow> nat \<Rightarrow> bool" where
  "has_id (Obj c) k = (city_id c = k)"
| "has_id _ k = False"

text \<open>
  The inner \<^verbatim>\<open>while\<close> of the fill phase, returning the index it stops at. Its condition
  calls \<^verbatim>\<open>child.some\<close>, whose callback reads \<^verbatim>\<open>parent2.path[parent2Idx].id\<close>: on a child with
  an entry, an index past the end of parent 2 throws.
\<close>

function scan_parent2 :: "City list \<Rightarrow> jsval list \<Rightarrow> nat \<Rightarrow> error + nat" where
  "scan_parent2 p2 child idx =
     (if child = [] then Inr idx
      else if length p2 \<le> idx then Inl TypeError
      else if list_ex (\<lambda>c. has_id c (city_id (p2 ! idx))) child
           then scan_parent2 p2 child (Suc idx)
      else Inr idx)"
  by pat_completeness auto
termination
  by (relation "measure (\<lambda>(p2, child, idx). length p2 - idx)") auto

declare scan_parent2.simps [simp del]

text \<open>The fill phase: the loop over \<^verbatim>\<open>i = 0 .. pathLength - 1\<close> with its counter \<^verbatim>\<open>parent2Idx\<close>.\<close>

function fill_child ::
  "City list \<Rightarrow> nat \<Rightarrow> nat \<Rightarrow> nat \<Rightarrow> jsval list \<Rightarrow> error + jsval list" where
  "fill_child p2 pathLength i parent2Idx child =
     (if pathLength \<le> i then Inr child
      else if js_get child i \<noteq> Null then fill_child p2 pathLength (Suc i) parent2Idx child
      else (case scan_parent2 p2 child parent2Idx of
              Inl e \<Rightarrow> Inl e
            | Inr j \<Rightarrow> fill_child p2 pathLength (Suc i) (Suc j) (js_set child i (js_read p2 j))))"
  by pat_completeness auto
termination
  by (relation "measure (\<lambda>(p2, pathLength, i, parent2Idx, child). pathLength - i)") auto

declare fill_child.simps [simp del]

text \<open>
  \<^verbatim>\<open>crossover\<close>, with the rate of the configuration as a parameter. Three draws when it
  recombines: the test against the rate, \<^verbatim>\<open>start\<close> and \<^verbatim>\<open>end\<close>.
\<close>

definition crossover ::
  "real \<Rightarrow> rng \<Rightarrow> nat \<Rightarrow> Individual \<Rightarrow> Individual \<Rightarrow> error + (jsval list \<times> nat)" where
  "crossover rate rnd k parent1 parent2 =
     (if rnd k > rate then Inr (map Obj (path parent1), Suc k)
      else
        let pathLength = length (path parent1);
            start = rand_index (rnd (k + 1)) pathLength;
            end_pt = rand_index (rnd (k + 2)) pathLength;
            mn = (if start < end_pt then start else end_pt);
            mx = (if start < end_pt then end_pt else start);
            child = copy_segment (path parent1) mn mx (replicate pathLength Null)
        in (case fill_child (path parent2) pathLength 0 0 child of
              Inl e \<Rightarrow> Inl e
            | Inr child' \<Rightarrow> Inr (filter (\<lambda>c. c \<noteq> Null) child', k + 3)))"

text \<open>
  \<^verbatim>\<open>mutate\<close>: the destructuring swap reads both entries first, then writes \<^verbatim>\<open>newPath[i]\<close>
  and \<^verbatim>\<open>newPath[j]\<close>.
\<close>

definition mutate :: "real \<Rightarrow> rng \<Rightarrow> nat \<Rightarrow> jsval list \<Rightarrow> jsval list \<times> nat" where
  "mutate rate rnd k p =
     (if rnd k > rate then (p, Suc k)
      else
        let i = rand_index (rnd (k + 1)) (length p);
            j = rand_index (rnd (k + 2)) (length p);
            vj = js_get p j;
            vi = js_get p i
        in (js_set (js_set p i vj) j vi, k + 3))"

section \<open>The generation step, the run controller and reset\<close>

text \<open>
  The state of the component that the engine reads and writes: the React store. The
  throttled display (\<^verbatim>\<open>displayPaths\<close>, the render clock) is not modelled.
\<close>

record RunState =
  cities :: "City list"
  population :: "Individual list"
  bestIndividual :: Individual
  currentGen :: nat
  isRunning :: bool

text \<open>
  One pass of the refill loop: two selections, crossover, mutation, then the child's
  length and fitness. Both parents come from the same population, so both are
  \<^verbatim>\<open>undefined\<close> or neither is; \<^verbatim>\<open>crossover\<close> throws on \<^verbatim>\<open>parent1.path\<close> then.
\<close>

definition breed :: "GAConfig \<Rightarrow> rng \<Rightarrow> nat \<Rightarrow> Individual list \<Rightarrow> error + (Individual \<times> nat)" where
  "breed cfg rnd k pop =
     (case select rnd k pop of
        (parent1, k1) \<Rightarrow>
          (case select rnd k1 pop of
             (parent2, k2) \<Rightarrow>
               (case (parent1, parent2) of
                  (Some p1, Some p2) \<Rightarrow>
                    (case crossover (crossoverRate cfg) rnd k2 p1 p2 of
                       Inl e \<Rightarrow> Inl e
                     | Inr (childPath, k3) \<Rightarrow>
                         (case mutate (mutationRate cfg) rnd k3 childPath of
                            (childPath', k4) \<Rightarrow>
                              (case cities_of childPath' of
                                 None \<Rightarrow> Inl TypeError
                               | Some cp \<Rightarrow> Inr (mk_individual cp, k4))))
                | _ \<Rightarrow> Inl TypeError)))"

text \<open>\<^verbatim>\<open>while (newPopulation.length < config.populationSize) { ... push(child) }\<close>.\<close>

function refill ::
  "GAConfig \<Rightarrow> rng \<Rightarrow> Individual list \<Rightarrow> nat \<Rightarrow> Individual list \<Rightarrow>
   error + (Individual list \<times> nat)" where
  "refill cfg rnd pop k newPopulation =
     (if length newPopulation < populationSize cfg
      then (case breed cfg rnd k pop of
              Inl e \<Rightarrow> Inl e
            | Inr (child, k') \<Rightarrow> refill cfg rnd pop k' (newPopulation @ [child]))
      else Inr (newPopulation, k))"
  by pat_completeness auto
termination
  by (relation "measure (\<lambda>(cfg, rnd, pop, k, newPopulation).
        populationSize cfg - length newPopulation)") auto

declare refill.simps [simp del]

text \<open>
  \<^verbatim>\<open>gaIteration\<close> is a closure of one render: \<^verbatim>\<open>population\<close>, \<^verbatim>\<open>bestIndividual\<close> and
  \<^verbatim>\<open>currentGen\<close> are constants of that render (\<open>cl\<close>, the values the closure reads), while
  its writes go to the store (\<open>st\<close>). \<^verbatim>\<open>setPopulation\<close> and \<^verbatim>\<open>setBestIndividual\<close> store a value,
  \<^verbatim>\<open>setCurrentGen(prev => prev + 1)\<close> increments what the store holds, and when the test
  \<^verbatim>\<open>currentBest.length < bestIndividual.length\<close> fails nothing is written to the record.
  At the ceiling the call only clears \<^verbatim>\<open>isRunning\<close>. With an empty population the elite is
  \<^verbatim>\<open>undefined\<close> and the call throws (in \<^verbatim>\<open>crossover\<close>, or at \<^verbatim>\<open>currentBest.length\<close> when nothing
  is bred); a call that throws returns the error alone: what it had written before is not
  kept. The last statement requests an animation frame when the \<^verbatim>\<open>isRunning\<close> of the closure
  is true; it writes nothing to the store.
\<close>

definition gaIteration ::
  "GAConfig \<Rightarrow> rng \<Rightarrow> nat \<Rightarrow> RunState \<Rightarrow> RunState \<Rightarrow> error + (RunState \<times> nat)" where
  "gaIteration cfg rnd k cl st =
     (if 1000 \<le> currentGen cl then Inr (st\<lparr>isRunning := False\<rparr>, k)
      else
        (case sorted_copy by_fitness_desc (population cl) of
           [] \<Rightarrow> Inl TypeError
         | elite # _ \<Rightarrow>
             (case refill cfg rnd (population cl) k [elite] of
                Inl e \<Rightarrow> Inl e
              | Inr (newPopulation, k') \<Rightarrow>
                  (case sorted_copy by_length_asc newPopulation of
                     [] \<Rightarrow> Inl TypeError
                   | currentBest # _ \<Rightarrow>
                       Inr (st\<lparr>population := newPopulation,
                              bestIndividual :=
                                (if js_lt (length_val currentBest) (length_val (bestIndividual cl))
                                 then currentBest else bestIndividual st),
                              currentGen := currentGen st + 1\<rparr>, k')))))"

text \<open>
  \<^verbatim>\<open>toggleRun\<close>. The component is its store and the timer: the closure that
  \<^verbatim>\<open>window.setInterval(gaIteration, 1000)\<close> was given, when one is installed. Starting a run
  installs the \<^verbatim>\<open>gaIteration\<close> of the render in which the button was clicked, whose constants
  are the store of that moment; stopping clears the timer.
\<close>

definition toggleRun :: "RunState \<times> RunState option \<Rightarrow> RunState \<times> RunState option" where
  "toggleRun c =
     (case c of
        (st, timer) \<Rightarrow>
          if isRunning st then (st\<lparr>isRunning := False\<rparr>, None)
          else (st\<lparr>isRunning := True\<rparr>, Some st))"

text \<open>
  One tick of the timer calls the installed closure, and the same one at every tick: no
  code installs another while the run goes on. The closure was made while \<^verbatim>\<open>isRunning\<close> was
  false, so its last statement requests no animation frame. The run is followed up to the
  first call that throws.
\<close>

definition tick ::
  "GAConfig \<Rightarrow> rng \<Rightarrow> nat \<Rightarrow> RunState \<times> RunState option \<Rightarrow>
   error + ((RunState \<times> RunState option) \<times> nat)" where
  "tick cfg rnd k c =
     (case c of
        (st, None) \<Rightarrow> Inr ((st, None), k)
      | (st, Some cl) \<Rightarrow>
          (case gaIteration cfg rnd k cl st of
             Inl e \<Rightarrow> Inl e
           | Inr (st', k') \<Rightarrow> Inr ((st', Some cl), k')))"

fun ticks ::
  "GAConfig \<Rightarrow> rng \<Rightarrow> nat \<Rightarrow> nat \<Rightarrow> RunState \<times> RunState option \<Rightarrow>
   error + ((RunState \<times> RunState option) \<times> nat)" where
  "ticks cfg rnd 0 k c = Inr (c, k)"
| "ticks cfg rnd (Suc n) k c =
     (case tick cfg rnd k c of
        Inl e \<Rightarrow> Inl e
      | Inr (c', k') \<Rightarrow> ticks cfg rnd n k' c')"

text \<open>
  \<^verbatim>\<open>reset\<close>. With \<^verbatim>\<open>populationSize = 0\<close> the initial best is \<^verbatim>\<open>undefined\<close> and
  \<^verbatim>\<open>initBest.path\<close> throws, before the generation counter is set.
\<close>

definition reset :: "GAConfig \<Rightarrow> rng \<Rightarrow> nat \<Rightarrow> error + (RunState \<times> nat)" where
  "reset cfg rnd k =
     (case generateCities rnd k (cityCount cfg) of
        (newCities, k1) \<Rightarrow>
          (case initPopulation rnd k1 newCities (populationSize cfg) of
             (newPopulation, k2) \<Rightarrow>
               (case sorted_copy by_length_asc newPopulation of
                  [] \<Rightarrow> Inl TypeError
                | initBest # _ \<Rightarrow>
                    Inr (\<lparr>cities = newCities, population = newPopulation,
                          bestIndividual = initBest, currentGen = 0, isRunning = False\<rparr>, k2))))"

section \<open>Concrete inputs\<close>

text \<open>Three cities on a line, the configuration the component starts with, and a store
  over two of the cities.\<close>

definition city_a :: City where "city_a = \<lparr>city_id = 0, city_x = 0, city_y = 0\<rparr>"
definition city_b :: City where "city_b = \<lparr>city_id = 1, city_x = 1, city_y = 0\<rparr>"
definition city_c :: City where "city_c = \<lparr>city_id = 2, city_x = 3, city_y = 0\<rparr>"

definition default_config :: GAConfig where
  "default_config = \<lparr>cityCount = 20, populationSize = 50, mutationRate = 5 / 100,
     crossoverRate = 8 / 10, generations = 20\<rparr>"

definition tour_abc :: Individual where
  "tour_abc = mk_individual [city_a, city_b, city_c]"

definition tour_cba :: Individual where
  "tour_cba = mk_individual [city_c, city_b, city_a]"

definition pair_population :: "Individual list" where
  "pair_population = [mk_individual [city_a, city_b], mk_individual [city_b, city_a]]"

definition pair_config :: GAConfig where
  "pair_config = default_config\<lparr>cityCount := 2, populationSize := 2\<rparr>"

definition pair_state :: RunState where
  "pair_state = \<lparr>cities = [city_a, city_b], population = pair_population,
     bestIndividual = mk_individual [city_a, city_b], currentGen = 0, isRunning = False\<rparr>"




definition four_config :: GAConfig where
  "four_config = default_config\<lparr>cityCount := 4, populationSize := 2\<rparr>"



text \<open>
  The corners of a rectangle of sides \<open>3\<close> and \<open>4\<close> inside the canvas, and four tours of them:
  two of length \<open>18\<close>, the perimeter of length \<open>14\<close>, and one of length \<open>16\<close>. The state is a store
  as \<^verbatim>\<open>reset\<close> leaves it, with the two tours of length \<open>18\<close> as population and the first of
  them as best-ever record. The draws make each of the first two generation steps select
  the first individual twice, skip crossover and mutate: the first step swaps positions
  \<open>1\<close> and \<open>2\<close>, the second positions \<open>2\<close> and \<open>3\<close>.
\<close>

definition rect_a :: City where "rect_a = \<lparr>city_id = 0, city_x = 20, city_y = 20\<rparr>"
definition rect_b :: City where "rect_b = \<lparr>city_id = 1, city_x = 23, city_y = 20\<rparr>"
definition rect_c :: City where "rect_c = \<lparr>city_id = 2, city_x = 23, city_y = 24\<rparr>"
definition rect_d :: City where "rect_d = \<lparr>city_id = 3, city_x = 20, city_y = 24\<rparr>"

definition tour_acbd :: Individual where
  "tour_acbd = mk_individual [rect_a, rect_c, rect_b, rect_d]"

definition tour_adbc :: Individual where
  "tour_adbc = mk_individual [rect_a, rect_d, rect_b, rect_c]"

definition tour_abcd :: Individual where
  "tour_abcd = mk_individual [rect_a, rect_b, rect_c, rect_d]"

definition tour_acdb :: Individual where
  "tour_acdb = mk_individual [rect_a, rect_c, rect_d, rect_b]"

definition rect_state :: RunState where
  "rect_state = \<lparr>cities = [rect_a, rect_b, rect_c, rect_d],
     population = [tour_acbd, tour_adbc], bestIndividual = tour_acbd,
     currentGen = 0, isRunning = False\<rparr>"

definition rect_draws :: rng where
  "rect_draws k =
     (if k = 2 \<or> k = 8 then 9 / 10
      else if k = 4 then 1 / 4
      else if k = 5 \<or> k = 10 then 1 / 2
      else if k = 11 then 3 / 4
      else 0)"

section \<open>Auxiliary notions\<close>

text \<open>The edge of the path that edge \<open>i\<close> of the reversed path runs along, backwards.\<close>

definition rev_edge :: "nat \<Rightarrow> nat \<Rightarrow> nat" where
  "rev_edge n i = (if Suc i = n then i else n - 2 - i)"

text \<open>The cities stored in an array, in order.\<close>

fun objs :: "jsval list \<Rightarrow> City list" where
  "objs [] = []"
| "objs (Obj c # vs) = c # objs vs"
| "objs (_ # vs) = objs vs"

text \<open>The comparator \<open>f\<close> puts \<open>a\<close> before \<open>b\<close>: its result is negative.\<close>

definition before :: "('a \<Rightarrow> 'a \<Rightarrow> jsnum) \<Rightarrow> 'a \<Rightarrow> 'a \<Rightarrow> bool" where
  "before f a b = js_lt (f a b) (Fin 0)"

text \<open>The running sum of \<^verbatim>\<open>select\<close> after the individual at index \<open>j\<close> has been added.\<close>

definition cumulative :: "Individual list \<Rightarrow> nat \<Rightarrow> jsnum" where
  "cumulative pop j = foldl (\<lambda>sum ind. js_add sum (fitness ind)) (Fin 0) (take (Suc j) pop)"

definition running :: "jsnum \<Rightarrow> Individual list \<Rightarrow> nat \<Rightarrow> jsnum" where
  "running acc pop j = foldl (\<lambda>sum ind. js_add sum (fitness ind)) acc (take (Suc j) pop)"

text \<open>
  An individual of a run over the cities \<open>cs\<close>: its path is a permutation of them, and its
  length and fitness are the ones computed from the path.
\<close>

definition valid_individual :: "City list \<Rightarrow> Individual \<Rightarrow> bool" where
  "valid_individual cs ind \<longleftrightarrow> mset (path ind) = mset cs \<and> ind = mk_individual (path ind)"

text \<open>
  What the specification says of a member of the new population other than the elite: it is
  built by \<^verbatim>\<open>select\<close>, \<^verbatim>\<open>crossover\<close> and \<^verbatim>\<open>mutate\<close>, in this order, from two parents selected
  from the old population, and carries the length and the fitness computed from its own
  path. \<open>built cfg rnd pop j child\<close> is the position after the last draw when \<open>child\<close> is what
  these steps give from draw \<open>j\<close> on, and \<open>None\<close> when it is not. \<open>built_chain\<close> says it of a
  list of children, built one after the other.
\<close>

definition built :: "GAConfig \<Rightarrow> rng \<Rightarrow> Individual list \<Rightarrow> nat \<Rightarrow> Individual \<Rightarrow> nat option" where
  "built cfg rnd pop j child =
     (case select rnd j pop of
        (None, _) \<Rightarrow> None
      | (Some parent1, j1) \<Rightarrow>
          (case select rnd j1 pop of
             (None, _) \<Rightarrow> None
           | (Some parent2, j2) \<Rightarrow>
               (case crossover (crossoverRate cfg) rnd j2 parent1 parent2 of
                  Inl _ \<Rightarrow> None
                | Inr (crossed, j3) \<Rightarrow>
                    (case mutate (mutationRate cfg) rnd j3 crossed of
                       (mutated, j4) \<Rightarrow>
                         if mutated = map Obj (path child)
                            \<and> length_val child = Fin (calculatePathLength (path child))
                            \<and> fitness child = js_div (Fin 1) (length_val child)
                         then Some j4 else None))))"

fun built_chain ::
  "GAConfig \<Rightarrow> rng \<Rightarrow> Individual list \<Rightarrow> nat \<Rightarrow> Individual list \<Rightarrow> nat option" where
  "built_chain cfg rnd pop k [] = Some k"
| "built_chain cfg rnd pop k (child # rest) =
     (case built cfg rnd pop k child of
        None \<Rightarrow> None
      | Some j \<Rightarrow> built_chain cfg rnd pop j rest)"

section \<open>Facts about rounding\<close>

lemma rne_near: "\<bar>y - of_int n\<bar> < 1 / 2 \<Longrightarrow> rne y = n"
proof -
  assume a: "\<bar>y - of_int n\<bar> < 1 / 2"
  have "\<lfloor>y\<rfloor> = n \<or> \<lfloor>y\<rfloor> = n - 1"
  proof (cases "of_int n \<le> y")
    case True
    then have "\<lfloor>y\<rfloor> = n" using a by (intro floor_unique) auto
    then show ?thesis by simp
  next
    case False
    then have "\<lfloor>y\<rfloor> = n - 1" using a by (intro floor_unique) auto
    then show ?thesis by simp
  qed
  then show ?thesis
  proof
    assume f: "\<lfloor>y\<rfloor> = n"
    then have "y - of_int n < 1 / 2" using a by auto
    then show ?thesis using f by (simp add: rne_def Let_def)
  next
    assume f: "\<lfloor>y\<rfloor> = n - 1"
    have "- (1 / 2) < y - of_int n" using a by linarith
    then have "1 / 2 < y - of_int (n - 1)" by simp
    then show ?thesis using f by (simp add: rne_def Let_def)
  qed
qed

lemma rne_nonneg: "0 \<le> y \<Longrightarrow> 0 \<le> rne y"
  by (auto simp: rne_def Let_def)

lemma round_double_nonneg: "0 \<le> v \<Longrightarrow> 0 \<le> round_double v"
proof (cases "v = 0")
  case True
  then show ?thesis by (simp add: round_double_def)
next
  case False
  assume "0 \<le> v"
  let ?u = "(2::real) powi (\<lfloor>log 2 \<bar>v\<bar>\<rfloor> - 52)"
  have u: "0 < ?u" by simp
  then have "0 \<le> v / ?u" using \<open>0 \<le> v\<close> by simp
  then have "0 \<le> rne (v / ?u)" by (rule rne_nonneg)
  then show ?thesis using False u by (simp add: round_double_def Let_def)
qed

lemma round_double_eq:
  assumes lo: "2 powi e \<le> \<bar>v\<bar>" and hi: "\<bar>v\<bar> < 2 powi (e + 1)"
    and n: "\<bar>v / 2 powi (e - 52) - of_int n\<bar> < 1 / 2"
  shows "round_double v = 2 powi (e - 52) * of_int n"
proof -
  have pos: "0 < \<bar>v\<bar>" using lo by (smt (verit) zero_less_power_int)
  have "(2::real) powr real_of_int e = 2 powi e" "(2::real) powr (real_of_int e + 1) = 2 powi (e + 1)"
    using powr_real_of_int'[of 2 e] powr_real_of_int'[of 2 "e + 1"] by simp_all
  then have "\<lfloor>log 2 \<bar>v\<bar>\<rfloor> = e"
    using lo hi pos by (simp add: floor_log_eq_powr_iff)
  moreover have "rne (v / 2 powi (e - 52)) = n" using n by (rule rne_near)
  moreover have "v \<noteq> 0" using pos by auto
  ultimately show ?thesis by (simp add: round_double_def Let_def)
qed

lemma round_double_half: "round_double (1 / 2) = 1 / 2"
  using round_double_eq[of "-1" "1 / 2" "2 ^ 52"] by (simp add: power_int_def power_one_over)

section \<open>Facts about the path length\<close>

lemma hypot_nonneg: "0 \<le> hypot dx dy"
  by (simp add: hypot_def)

lemma hypot_minus: "hypot (- dx) (- dy) = hypot dx dy"
  by (simp add: hypot_def)

lemma edge_len_nonneg: "0 \<le> edge_len p i"
  by (simp add: edge_len_def Let_def hypot_nonneg)

lemma fold_add_sum:
  "fold (\<lambda>i len. len + g i) [0..<n] (a::real) = a + (\<Sum>i<n. g i)"
  by (induction n arbitrary: a) (simp_all add: add.assoc)

lemma calculatePathLength_sum:
  "calculatePathLength p = (\<Sum>i<length p. edge_len p i)"
  by (simp add: calculatePathLength_def fold_add_sum)

lemma calculatePathLength_nonneg: "0 \<le> calculatePathLength p"
  by (simp add: calculatePathLength_sum sum_nonneg edge_len_nonneg)

lemma edge_len_rotate1:
  assumes "i < length p"
  shows "edge_len (rotate1 p) i = edge_len p (Suc i mod length p)"
proof -
  have "0 < length p" using assms by auto
  then have "Suc i mod length p < length p" by (rule mod_less_divisor)
  then show ?thesis using assms by (simp add: edge_len_def Let_def nth_rotate1)
qed

lemma sum_shift_mod:
  fixes g :: "nat \<Rightarrow> real"
  shows "(\<Sum>i<n. g (Suc i mod n)) = (\<Sum>i<n. g i)"
proof (cases "n = 0")
  case True then show ?thesis by simp
next
  case False
  have a: "(Suc a mod n + (n - 1)) mod n = a" if "a < n" for a
  proof (cases "Suc a = n")
    case True then show ?thesis using that by simp
  next
    case False 
    then have "Suc a mod n = Suc a" using that by simp
    then show ?thesis using that by (simp add: mod_simps)
  qed
  have b: "Suc ((b + (n - 1)) mod n) mod n = b" if "b < n" for b
  proof (cases "b = 0")
    case True then show ?thesis using that by simp
  next
    case False
    then have "b + (n - 1) = (b - 1) + n" using that by arith
    then have "(b + (n - 1)) mod n = (b - 1) mod n" by (simp only: mod_add_self2)
    also have "\<dots> = b - 1" using that by simp
    finally show ?thesis using that False by simp
  qed
  show ?thesis
    by (rule sum.reindex_bij_witness[where i = "\<lambda>j. (j + (n - 1)) mod n" and j = "\<lambda>i. Suc i mod n"])
       (use False a b in \<open>auto\<close>)
qed

lemma calculatePathLength_rotate1:
  "calculatePathLength (rotate1 p) = calculatePathLength p"
proof -
  have "calculatePathLength (rotate1 p) = (\<Sum>i<length p. edge_len p (Suc i mod length p))"
    by (simp add: calculatePathLength_sum edge_len_rotate1)
  also have "\<dots> = calculatePathLength p"
    by (simp only: sum_shift_mod calculatePathLength_sum)
  finally show ?thesis .
qed

lemma calculatePathLength_rotate:
  "calculatePathLength (rotate k p) = calculatePathLength p"
  by (induction k) (simp_all add: calculatePathLength_rotate1)

lemma hypot_swap: "hypot (a - b) (c - d) = hypot (b - a) (d - c)"
  using hypot_minus[of "a - b" "c - d"] by simp

lemma edge_len_rev:
  assumes "i < length p"
  shows "edge_len (rev p) i = edge_len p (rev_edge (length p) i)"
proof (cases "Suc i = length p")
  case True
  have "rev p ! 0 = p ! (length p - Suc 0)" using assms by (intro rev_nth) auto
  also have "length p - Suc 0 = i" using True[symmetric] by simp
  finally have "rev p ! 0 = p ! i" .
  then show ?thesis using assms True
    by (simp add: edge_len_def Let_def rev_nth rev_edge_def hypot_swap)
next
  case False
  then have lt: "Suc i < length p" using assms by simp
  then have m: "Suc i mod length p = Suc i" by simp
  have m2: "Suc (length p - 2 - i) mod length p = length p - Suc i" using lt by simp
  have m3: "length p - Suc (Suc i) = length p - 2 - i" by simp
  show ?thesis using assms lt False
    by (simp add: edge_len_def Let_def rev_nth rev_edge_def m m2 m3 hypot_swap del: diff_diff_left)
qed

lemma sum_rev_edge:
  fixes g :: "nat \<Rightarrow> real"
  shows "(\<Sum>i<n. g (rev_edge n i)) = (\<Sum>i<n. g i)"
  by (rule sum.reindex_bij_witness[where i = "rev_edge n" and j = "rev_edge n"])
     (auto simp: rev_edge_def)

lemma calculatePathLength_rev:
  "calculatePathLength (rev p) = calculatePathLength p"
proof -
  have "calculatePathLength (rev p) = (\<Sum>i<length p. edge_len p (rev_edge (length p) i))"
    by (simp add: calculatePathLength_sum edge_len_rev)
  also have "\<dots> = calculatePathLength p"
    by (simp only: sum_rev_edge calculatePathLength_sum)
  finally show ?thesis .
qed

text \<open>
  In exact arithmetic the path length is never negative, and it is the same for every
  rotation of the path and for the reversed path. The last two are facts of the model only:
  the source adds doubles in path order, and a rotation or the reversal changes that order,
  so the machine sums may differ in their last bits.
\<close>

lemma calculatePathLength_exact_cyclic:
  "0 \<le> calculatePathLength p
   \<and> calculatePathLength (rotate k p) = calculatePathLength p
   \<and> calculatePathLength (rev p) = calculatePathLength p"
  by (simp add: calculatePathLength_nonneg calculatePathLength_rotate calculatePathLength_rev)

section \<open>Fitness of a path of length zero\<close>

lemma calculatePathLength_single: "calculatePathLength [c] = 0"
  by (simp add: calculatePathLength_def edge_len_def hypot_def)

text \<open>
  Claim C7. With a single city the path length is \<open>0\<close> and \<^verbatim>\<open>calculateFitness\<close> divides by
  it: the fitness it returns, and the one the individual carries, is \<^verbatim>\<open>Infinity\<close>, neither a
  finite sentinel nor a rejection.
\<close>

theorem calculateFitness_zero_length:
  "calculatePathLength [c] = 0
   \<and> calculateFitness \<lparr>path = [c], fitness = Fin 0, length_val = Fin (calculatePathLength [c])\<rparr>
       = PInf
   \<and> fitness (mk_individual [c]) = PInf"
  by (simp add: mk_individual_def calculateFitness_def calculatePathLength_single)

text \<open>The infinite fitness reaches selection: the total is infinite, and a draw of \<open>0\<close> makes
  \<^verbatim>\<open>randomNum\<close> a \<^verbatim>\<open>NaN\<close>.\<close>

lemma totalFitness_zero_length:
  "totalFitness [mk_individual [c], mk_individual [c]] = PInf
   \<and> js_mul (Fin 0) (totalFitness [mk_individual [c], mk_individual [c]]) = NaN"
  by (simp add: totalFitness_def mk_individual_def calculateFitness_def
      calculatePathLength_single)

section \<open>Facts about sorting\<close>

lemma mset_js_insert: "mset (fst (js_insert cmp v ys s)) = add_mset v (mset ys)"
proof (induction ys arbitrary: s)
  case Nil
  then show ?case by simp
next
  case (Cons y ys)
  obtain r s' where c: "cmp s v y = (r, s')" by (cases "cmp s v y")
  obtain zs s'' where i: "js_insert cmp v ys s' = (zs, s'')" by (cases "js_insert cmp v ys s'")
  have "mset zs = add_mset v (mset ys)" using Cons.IH[of s'] i by simp
  then show ?case using c i by simp
qed

lemma mset_js_sort_from: "mset (fst (js_sort_from cmp acc vs s)) = mset acc + mset vs"
proof (induction vs arbitrary: acc s)
  case Nil
  then show ?case by simp
next
  case (Cons v vs)
  obtain acc' s' where ins: "js_insert cmp v acc s = (acc', s')"
    by (cases "js_insert cmp v acc s")
  then have "mset acc' = add_mset v (mset acc)"
    using mset_js_insert[of cmp v acc s] by simp
  then show ?case using Cons.IH[of acc' s'] ins by simp
qed

lemma mset_js_sort: "mset (fst (js_sort cmp vs s)) = mset vs"
  by (simp add: js_sort_def mset_js_sort_from)

lemma mset_sorted_copy: "mset (sorted_copy f vs) = mset vs"
  by (simp add: sorted_copy_def mset_js_sort)

lemma set_sorted_copy: "set (sorted_copy f vs) = set vs"
  using mset_sorted_copy[of f vs] by (metis set_mset_mset)

lemma length_sorted_copy: "length (sorted_copy f vs) = length vs"
  using mset_sorted_copy[of f vs] by (metis size_mset)

lemma sorted_copy_Cons_mem: "sorted_copy f vs = b # rest \<Longrightarrow> b \<in> set vs"
  using set_sorted_copy[of f vs] by auto

lemma sorted_copy_nonempty: "vs \<noteq> [] \<Longrightarrow> \<exists>b rest. sorted_copy f vs = b # rest"
  using length_sorted_copy[of f vs] by (cases "sorted_copy f vs") auto

section \<open>Facts about the comparison\<close>

lemma js_lt_irrefl: "\<not> js_lt a a"
  by (cases a) auto

lemma js_lt_asym: "js_lt a b \<Longrightarrow> \<not> js_lt b a"
  by (cases a; cases b) auto

lemma calculatePathLength_ab: "calculatePathLength [city_a, city_b] = 2"
  by (simp add: calculatePathLength_def edge_len_def hypot_def city_a_def city_b_def)

lemma sorted_copy_single: "sorted_copy f [v] = [v]"
  by (simp add: sorted_copy_def js_sort_def)

section \<open>The skip branch of crossover\<close>

text \<open>
  Claim C5, as amended. Whenever the draw is greater than the crossover rate, \<^verbatim>\<open>crossover\<close>
  skips recombination and returns a copy of the path of parent 1, after one draw. With a
  rate of \<open>0\<close> that is every draw but \<open>0\<close> itself.
\<close>

theorem crossover_skip:
  "rate < rnd k \<Longrightarrow> crossover rate rnd k parent1 parent2 = Inr (map Obj (path parent1), Suc k)"
  by (simp add: crossover_def)

theorem crossover_skip_witness:
  "(0::real) < (\<lambda>_. 1 / 2) (0::nat)
   \<and> crossover 0 (\<lambda>_. 1 / 2) 0 (mk_individual [city_a, city_b, city_c])
        (mk_individual [city_a, city_c, city_b])
      = Inr (map Obj [city_a, city_b, city_c], 1)"
proof -
  have h: "(0::real) < (\<lambda>_. 1 / 2) (0::nat)" by simp
  show ?thesis
    using crossover_skip[where rate = 0 and rnd = "\<lambda>_. 1 / 2" and k = 0
        and ?parent1.0 = "mk_individual [city_a, city_b, city_c]"
        and ?parent2.0 = "mk_individual [city_a, city_c, city_b]", OF h] h
    by (simp add: mk_individual_def Let_def)
qed

lemma abc_distinct: "city_a \<noteq> city_b" "city_a \<noteq> city_c" "city_b \<noteq> city_c"
  by (simp_all add: city_a_def city_b_def city_c_def)

theorem crossover_rate_zero_counterexample:
  "crossover 0 (\<lambda>_. 0) 0 \<lparr>path = [city_a, city_b, city_c], fitness = Fin (1 / 6), length_val = Fin 6\<rparr>
      \<lparr>path = [city_a, city_c, city_b], fitness = Fin (1 / 6), length_val = Fin 6\<rparr>
   = Inr ([Obj city_a, Obj city_c, Obj city_b], 3)
   \<and> [Obj city_a, Obj city_c, Obj city_b] \<noteq> map Obj [city_a, city_b, city_c]"
  by (simp add: crossover_def rand_index_def copy_segment_def js_set_def js_read_def js_get_def
      fill_child.simps scan_parent2.simps abc_distinct city_a_def city_b_def city_c_def)

section \<open>Selection returns a member\<close>

lemma running_Cons_0: "running acc (x # xs) 0 = js_add acc (fitness x)"
  by (simp add: running_def)

lemma running_Cons_Suc: "running acc (x # xs) (Suc j) = running (js_add acc (fitness x)) xs j"
  by (simp add: running_def)

lemma select_walk_Some:
  "select_walk r acc xs = Some ind \<Longrightarrow>
   \<exists>j<length xs. ind = xs ! j \<and> js_ge (running acc xs j) r
      \<and> (\<forall>i<j. \<not> js_ge (running acc xs i) r)"
proof (induction xs arbitrary: acc)
  case Nil
  then show ?case by simp
next
  case (Cons x xs)
  show ?case
  proof (cases "js_ge (js_add acc (fitness x)) r")
    case True
    then have "ind = x" using Cons.prems by (simp add: Let_def)
    then show ?thesis using True by (intro exI[of _ 0]) (simp add: running_Cons_0)
  next
    case False
    then have "select_walk r (js_add acc (fitness x)) xs = Some ind"
      using Cons.prems by (simp add: Let_def)
    from Cons.IH[OF this] obtain j where j: "j < length xs" "ind = xs ! j"
      "js_ge (running (js_add acc (fitness x)) xs j) r"
      "\<forall>i<j. \<not> js_ge (running (js_add acc (fitness x)) xs i) r"
      by blast
    have "\<not> js_ge (running acc (x # xs) i) r" if "i < Suc j" for i
    proof (cases i)
      case 0
      then show ?thesis using False by (simp add: running_Cons_0)
    next
      case (Suc i')
      then show ?thesis using j(4) that by (simp add: running_Cons_Suc)
    qed
    then show ?thesis using j by (intro exI[of _ "Suc j"]) (simp add: running_Cons_Suc)
  qed
qed

lemma select_walk_None:
  "select_walk r acc xs = None \<Longrightarrow> \<forall>i<length xs. \<not> js_ge (running acc xs i) r"
proof (induction xs arbitrary: acc)
  case Nil
  then show ?case by simp
next
  case (Cons x xs)
  have nf: "\<not> js_ge (js_add acc (fitness x)) r"
    using Cons.prems by (auto simp: Let_def split: if_splits)
  then have "select_walk r (js_add acc (fitness x)) xs = None"
    using Cons.prems by (simp add: Let_def)
  from Cons.IH[OF this] have ih: "\<forall>i<length xs. \<not> js_ge (running (js_add acc (fitness x)) xs i) r" .
  show ?case
  proof (intro allI impI)
    fix i assume "i < length (x # xs)"
    then show "\<not> js_ge (running acc (x # xs) i) r"
      using nf ih by (cases i) (simp_all add: running_Cons_0 running_Cons_Suc)
  qed
qed

lemma cumulative_running: "cumulative pop j = running (Fin 0) pop j"
  by (simp add: cumulative_def running_def)

lemma select_index:
  assumes "pop \<noteq> []"
  shows "\<exists>j<length pop.
           select rnd k pop = (Some (pop ! j), Suc k)
           \<and> ((js_ge (cumulative pop j) (js_mul (Fin (rnd k)) (totalFitness pop))
                \<and> (\<forall>i<j. \<not> js_ge (cumulative pop i) (js_mul (Fin (rnd k)) (totalFitness pop))))
               \<or> ((\<forall>i<length pop. \<not> js_ge (cumulative pop i) (js_mul (Fin (rnd k)) (totalFitness pop)))
                   \<and> j = 0))"
proof (cases "select_walk (js_mul (Fin (rnd k)) (totalFitness pop)) (Fin 0) pop")
  case None
  obtain first rest where pop: "pop = first # rest" using assms by (cases pop) auto
  have "select rnd k pop = (Some (pop ! 0), Suc k)"
    using None pop by (simp add: select_def Let_def)
  then show ?thesis
    using select_walk_None[OF None] pop by (intro exI[of _ 0]) (simp add: cumulative_running)
next
  case (Some ind)
  from select_walk_Some[OF Some] obtain j where j: "j < length pop" "ind = pop ! j"
    "js_ge (running (Fin 0) pop j) (js_mul (Fin (rnd k)) (totalFitness pop))"
    "\<forall>i<j. \<not> js_ge (running (Fin 0) pop i) (js_mul (Fin (rnd k)) (totalFitness pop))"
    by blast
  have "select rnd k pop = (Some (pop ! j), Suc k)"
    using Some j(2) by (simp add: select_def Let_def)
  then show ?thesis using j by (intro exI[of _ j]) (simp add: cumulative_running)
qed


text \<open>
  Claim C4. On a population that is not empty, \<^verbatim>\<open>select\<close> returns a member of it, after one
  draw: the member at the first index where the running sum of the fitness values has
  reached \<^verbatim>\<open>randomNum\<close>, and the first member of the population when no index does.
\<close>

theorem select_member:
  assumes "pop \<noteq> []"
  shows "\<exists>j<length pop.
           select rnd k pop = (Some (pop ! j), Suc k)
           \<and> pop ! j \<in> set pop
           \<and> ((js_ge (cumulative pop j) (js_mul (Fin (rnd k)) (totalFitness pop))
                \<and> (\<forall>i<j. \<not> js_ge (cumulative pop i) (js_mul (Fin (rnd k)) (totalFitness pop))))
               \<or> ((\<forall>i<length pop.
                      \<not> js_ge (cumulative pop i) (js_mul (Fin (rnd k)) (totalFitness pop)))
                   \<and> j = 0))"
proof -
  from select_index[OF assms, of rnd k] obtain j where j: "j < length pop"
    "select rnd k pop = (Some (pop ! j), Suc k)"
    "(js_ge (cumulative pop j) (js_mul (Fin (rnd k)) (totalFitness pop))
        \<and> (\<forall>i<j. \<not> js_ge (cumulative pop i) (js_mul (Fin (rnd k)) (totalFitness pop))))
      \<or> ((\<forall>i<length pop.
              \<not> js_ge (cumulative pop i) (js_mul (Fin (rnd k)) (totalFitness pop)))
          \<and> j = 0)"
    by blast
  have "pop ! j \<in> set pop" using j(1) by simp
  then show ?thesis using j by blast
qed

lemma fitness_ab: "fitness (mk_individual [city_a, city_b]) = Fin (1 / 2)"
  by (simp add: mk_individual_def Let_def calculateFitness_def calculatePathLength_ab
      round_double_half)

lemma calculatePathLength_ba: "calculatePathLength [city_b, city_a] = 2"
  by (simp add: calculatePathLength_def edge_len_def hypot_def city_a_def city_b_def)

lemma fitness_ba: "fitness (mk_individual [city_b, city_a]) = Fin (1 / 2)"
  by (simp add: mk_individual_def Let_def calculateFitness_def calculatePathLength_ba
      round_double_half)

theorem select_member_witness:
  "pair_population \<noteq> []
   \<and> (\<exists>j<length pair_population.
         select (\<lambda>_. 3 / 4) 0 pair_population = (Some (pair_population ! j), Suc 0)
         \<and> pair_population ! j \<in> set pair_population
         \<and> ((js_ge (cumulative pair_population j)
                 (js_mul (Fin ((\<lambda>_. 3 / 4) (0::nat))) (totalFitness pair_population))
              \<and> (\<forall>i<j. \<not> js_ge (cumulative pair_population i)
                     (js_mul (Fin ((\<lambda>_. 3 / 4) (0::nat))) (totalFitness pair_population))))
             \<or> ((\<forall>i<length pair_population.
                    \<not> js_ge (cumulative pair_population i)
                       (js_mul (Fin ((\<lambda>_. 3 / 4) (0::nat))) (totalFitness pair_population)))
                 \<and> j = 0)))"
proof -
  have h: "pair_population \<noteq> []" by (simp add: pair_population_def)
  show ?thesis using select_member[OF h, of "\<lambda>_. 3 / 4" 0] h by blast
qed

text \<open>The draw \<open>3/4\<close> on two individuals of fitness \<open>1/2\<close> each: the walk passes the first and
  stops at the second.\<close>

lemma select_example:
  "select (\<lambda>_. 3 / 4) 0 pair_population = (Some (mk_individual [city_b, city_a]), 1)"
  by (simp add: select_def totalFitness_def pair_population_def fitness_ab fitness_ba Let_def)

section \<open>Crossover and mutation keep the cities\<close>

lemma objs_append: "objs (xs @ ys) = objs xs @ objs ys"
  by (induction xs rule: objs.induct) simp_all

lemma objs_map_Obj: "objs (map Obj p) = p"
  by (induction p) simp_all

lemma objs_replicate_Null: "objs (replicate n Null) = []"
  by (induction n) simp_all

lemma length_objs_le: "length (objs vs) \<le> length vs"
  by (induction vs rule: objs.induct) simp_all

lemma length_objs_less: "Null \<in> set vs \<Longrightarrow> length (objs vs) < length vs"
proof (induction vs)
  case Nil
  then show ?case by simp
next
  case (Cons v vs)
  then show ?case using length_objs_le[of vs] by (cases v) (auto simp: less_Suc_eq_le)
qed

lemma objs_all_Obj:
  "Null \<notin> set vs \<Longrightarrow> Undefined \<notin> set vs \<Longrightarrow> map Obj (objs vs) = vs"
  by (induction vs rule: objs.induct) simp_all

lemma set_objs: "set (objs vs) = {c. Obj c \<in> set vs}"
  by (induction vs rule: objs.induct) auto

lemma list_ex_has_id: "list_ex (\<lambda>c. has_id c k) vs \<longleftrightarrow> k \<in> city_id ` set (objs vs)"
  by (induction vs rule: objs.induct) auto

lemma cities_of_map_Obj: "cities_of (map Obj p) = Some p"
  by (induction p) simp_all

lemma objs_update_Null:
  assumes "i < length vs" and "vs ! i = Null"
  shows "objs vs = objs (take i vs) @ objs (drop (Suc i) vs)"
    and "objs (vs[i := Obj c]) = objs (take i vs) @ c # objs (drop (Suc i) vs)"
proof -
  have "vs = take i vs @ Null # drop (Suc i) vs"
    using assms by (metis id_take_nth_drop)
  then have "objs vs = objs (take i vs @ Null # drop (Suc i) vs)" by simp
  then show "objs vs = objs (take i vs) @ objs (drop (Suc i) vs)"
    by (simp add: objs_append)
  have "vs[i := Obj c] = take i vs @ Obj c # drop (Suc i) vs"
    using assms(1) by (rule upd_conv_take_nth_drop)
  then show "objs (vs[i := Obj c]) = objs (take i vs) @ c # objs (drop (Suc i) vs)"
    by (simp add: objs_append)
qed

lemma objs_update_Null_set:
  assumes "i < length vs" and "vs ! i = Null"
  shows "set (objs (vs[i := Obj c])) = insert c (set (objs vs))"
  using objs_update_Null(1)[OF assms] objs_update_Null(2)[OF assms, of c] by auto

lemma objs_update_Null_distinct:
  assumes "i < length vs" and "vs ! i = Null" and "distinct (objs vs)" and "c \<notin> set (objs vs)"
  shows "distinct (objs (vs[i := Obj c]))"
  using objs_update_Null(1)[OF assms(1,2)] objs_update_Null(2)[OF assms(1,2), of c] assms(3,4)
  by auto

lemma scan_parent2_finds:
  assumes "child \<noteq> []" and "idx \<le> j" and "j < length p2"
    and "\<not> list_ex (\<lambda>c. has_id c (city_id (p2 ! j))) child"
  shows "\<exists>j'. scan_parent2 p2 child idx = Inr j' \<and> idx \<le> j' \<and> j' \<le> j
           \<and> \<not> list_ex (\<lambda>c. has_id c (city_id (p2 ! j'))) child
           \<and> (\<forall>m. idx \<le> m \<and> m < j' \<longrightarrow> list_ex (\<lambda>c. has_id c (city_id (p2 ! m))) child)"
  using assms
proof (induction "j - idx" arbitrary: idx)
  case 0
  then have "idx = j" by simp
  moreover have "scan_parent2 p2 child j = Inr j"
    using 0 by (subst scan_parent2.simps) simp
  ultimately show ?case using 0 by (intro exI[of _ j]) auto
next
  case (Suc d)
  then have lt: "idx < length p2" by simp
  show ?case
  proof (cases "list_ex (\<lambda>c. has_id c (city_id (p2 ! idx))) child")
    case False
    then have "scan_parent2 p2 child idx = Inr idx"
      using Suc.prems lt by (subst scan_parent2.simps) simp
    then show ?thesis using False Suc.prems by (intro exI[of _ idx]) auto
  next
    case True
    have d: "d = j - Suc idx" using Suc.hyps(2) by simp
    have le: "Suc idx \<le> j" using Suc.hyps(2) by simp
    from Suc.hyps(1)[OF d Suc.prems(1) le Suc.prems(3,4)] obtain j' where j':
      "scan_parent2 p2 child (Suc idx) = Inr j'" "Suc idx \<le> j'" "j' \<le> j"
      "\<not> list_ex (\<lambda>c. has_id c (city_id (p2 ! j'))) child"
      "\<forall>m. Suc idx \<le> m \<and> m < j' \<longrightarrow> list_ex (\<lambda>c. has_id c (city_id (p2 ! m))) child"
      by blast
    have "scan_parent2 p2 child idx = Inr j'"
      using True lt Suc.prems(1) j'(1) by (subst scan_parent2.simps) simp
    moreover have "\<forall>m. idx \<le> m \<and> m < j' \<longrightarrow> list_ex (\<lambda>c. has_id c (city_id (p2 ! m))) child"
    proof (intro allI impI)
      fix m assume m: "idx \<le> m \<and> m < j'"
      show "list_ex (\<lambda>c. has_id c (city_id (p2 ! m))) child"
      proof (cases "m = idx")
        case True
        then show ?thesis using \<open>list_ex (\<lambda>c. has_id c (city_id (p2 ! idx))) child\<close> by simp
      next
        case False
        then show ?thesis using m j'(5) by simp
      qed
    qed
    ultimately show ?thesis using j'(2,3,4) by (intro exI[of _ j']) simp
  qed
qed

text \<open>On a child with an entry, the index at which the scan stops is inside parent 2: the
  read \<^verbatim>\<open>child[i] = parent2.path[parent2Idx]\<close> that follows it is in range.\<close>

lemma scan_parent2_in_range:
  "child \<noteq> [] \<Longrightarrow> scan_parent2 p2 child idx = Inr j \<Longrightarrow> j < length p2"
proof (induction p2 child idx rule: scan_parent2.induct)
  case (1 p2 child idx)
  show ?case
  proof (cases "length p2 \<le> idx")
    case True
    then show ?thesis using "1.prems" by (subst (asm) scan_parent2.simps) simp
  next
    case False
    show ?thesis
    proof (cases "list_ex (\<lambda>c. has_id c (city_id (p2 ! idx))) child")
      case True
      then have "scan_parent2 p2 child (Suc idx) = Inr j"
        using "1.prems" False by (subst (asm) scan_parent2.simps) simp
      then show ?thesis using "1.IH" "1.prems"(1) False True by simp
    next
      case ex: False
      then have "j = idx"
        using "1.prems" False by (subst (asm) scan_parent2.simps) simp
      then show ?thesis using False by simp
    qed
  qed
qed

lemma pigeon_missing:
  assumes dp: "distinct p2" and sub: "set (objs child) \<subseteq> set p2"
    and len: "length child = length p2" and nul: "Null \<in> set child"
  shows "\<exists>j<length p2. p2 ! j \<notin> set (objs child)"
proof -
  have "card (set (objs child)) \<le> length (objs child)" by (rule card_length)
  also have "\<dots> < length child" using nul by (rule length_objs_less)
  also have "\<dots> = card (set p2)" using dp len by (simp add: distinct_card)
  finally have "set (objs child) \<noteq> set p2" by auto
  then obtain c where "c \<in> set p2" "c \<notin> set (objs child)" using sub by auto
  then show ?thesis by (metis in_set_conv_nth)
qed

lemma id_mem_iff:
  assumes inj: "distinct (map city_id p2)" and sub: "set (objs child) \<subseteq> set p2"
    and c: "c \<in> set p2"
  shows "list_ex (\<lambda>v. has_id v (city_id c)) child \<longleftrightarrow> c \<in> set (objs child)"
proof -
  have "inj_on city_id (set p2)" using inj by (simp add: distinct_map)
  then have "city_id c \<in> city_id ` set (objs child) \<longleftrightarrow> c \<in> set (objs child)"
    using sub c by (meson inj_on_image_mem_iff)
  then show ?thesis by (simp add: list_ex_has_id)
qed

lemma fill_child_ok:
  assumes ids: "distinct (map city_id p2)" and lp: "length p2 = n"
  shows "i \<le> n \<Longrightarrow> length child = n \<Longrightarrow> distinct (objs child) \<Longrightarrow>
         set (objs child) \<subseteq> set p2 \<Longrightarrow> set (take idx p2) \<subseteq> set (objs child) \<Longrightarrow>
         Undefined \<notin> set child \<Longrightarrow> (\<forall>k<i. child ! k \<noteq> Null) \<Longrightarrow>
         \<exists>child'. fill_child p2 n i idx child = Inr child' \<and> length child' = n
            \<and> Null \<notin> set child' \<and> Undefined \<notin> set child'
            \<and> distinct (objs child') \<and> set (objs child') \<subseteq> set p2"
proof (induction "n - i" arbitrary: i idx child)
  case 0
  then have "i = n" by simp
  then have "fill_child p2 n i idx child = Inr child"
    by (subst fill_child.simps) simp
  moreover have "Null \<notin> set child"
    using 0 \<open>i = n\<close> by (metis in_set_conv_nth)
  ultimately show ?case using 0 by simp
next
  case (Suc d)
  then have i: "i < n" by simp
  have d: "d = n - Suc i" using Suc.hyps(2) by simp
  have dp2: "distinct p2" using ids by (simp add: distinct_map)
  show ?case
  proof (cases "child ! i = Null")
    case False
    then have step: "fill_child p2 n i idx child = fill_child p2 n (Suc i) idx child"
      using i Suc.prems(2) by (subst fill_child.simps) (simp add: js_get_def)
    have nn: "\<forall>k<Suc i. child ! k \<noteq> Null"
      using Suc.prems(7) False by (simp add: less_Suc_eq)
    have "Suc i \<le> n" using i by simp
    from Suc.hyps(1)[OF d this Suc.prems(2,3,4,5,6) nn] show ?thesis
      by (simp add: step)
  next
    case True
    have ne: "child \<noteq> []" using i Suc.prems(2) by auto
    have "Null \<in> set child" using True i Suc.prems(2) by (metis nth_mem)
    from pigeon_missing[OF dp2 Suc.prems(4) _ this] obtain j0 where
      j0: "j0 < length p2" "p2 ! j0 \<notin> set (objs child)"
      using Suc.prems(2) lp by auto
    have "idx \<le> j0"
    proof (rule ccontr)
      assume "\<not> idx \<le> j0"
      then have "p2 ! j0 \<in> set (take idx p2)"
        using j0(1) by (metis in_set_conv_nth length_take min_less_iff_conj not_le nth_take)
      then show False using Suc.prems(5) j0(2) by auto
    qed
    moreover have "\<not> list_ex (\<lambda>c. has_id c (city_id (p2 ! j0))) child"
      using id_mem_iff[OF ids Suc.prems(4), of "p2 ! j0"] j0 by simp
    ultimately obtain j where j: "scan_parent2 p2 child idx = Inr j" "idx \<le> j" "j \<le> j0"
      "\<not> list_ex (\<lambda>c. has_id c (city_id (p2 ! j))) child"
      "\<forall>m. idx \<le> m \<and> m < j \<longrightarrow> list_ex (\<lambda>c. has_id c (city_id (p2 ! m))) child"
      using scan_parent2_finds[OF ne _ j0(1)] by blast
    have jl: "j < length p2" using j(3) j0(1) by simp
    have jnew: "p2 ! j \<notin> set (objs child)"
      using id_mem_iff[OF ids Suc.prems(4), of "p2 ! j"] j(4) jl by simp
    let ?child = "child[i := Obj (p2 ! j)]"
    have upd: "js_set child i (js_read p2 j) = ?child"
      using i Suc.prems(2) jl by (simp add: js_set_def js_read_def)
    have step: "fill_child p2 n i idx child = fill_child p2 n (Suc i) (Suc j) ?child"
      using i Suc.prems(2) True j(1) upd by (subst fill_child.simps) (simp add: js_get_def)
    have il: "i < length child" using i Suc.prems(2) by simp
    have a1: "Suc i \<le> n" using i by simp
    have a2: "length ?child = n" using Suc.prems(2) by simp
    have a3: "distinct (objs ?child)"
      using objs_update_Null_distinct[OF il True Suc.prems(3) jnew] .
    have so: "set (objs ?child) = insert (p2 ! j) (set (objs child))"
      using objs_update_Null_set[OF il True] .
    have a4: "set (objs ?child) \<subseteq> set p2"
      using so Suc.prems(4) jl by auto
    have a5: "set (take (Suc j) p2) \<subseteq> set (objs ?child)"
    proof
      fix c assume "c \<in> set (take (Suc j) p2)"
      then obtain m where m: "m < Suc j" "c = p2 ! m"
        using jl by (auto simp: in_set_conv_nth)
      show "c \<in> set (objs ?child)"
      proof (cases "m < idx")
        case True
        then have "c \<in> set (take idx p2)"
          using m jl j(2) by (auto simp: in_set_conv_nth intro!: exI[of _ m])
        then show ?thesis using Suc.prems(5) so by auto
      next
        case False
        show ?thesis
        proof (cases "m = j")
          case True
          then show ?thesis using m so by simp
        next
          case False
          then have "idx \<le> m \<and> m < j" using \<open>\<not> m < idx\<close> m(1) by simp
          then have "list_ex (\<lambda>c. has_id c (city_id (p2 ! m))) child" using j(5) by blast
          moreover have "p2 ! m \<in> set p2" using m(1) jl by simp
          ultimately have "p2 ! m \<in> set (objs child)"
            using id_mem_iff[OF ids Suc.prems(4), of "p2 ! m"] by simp
          then show ?thesis using m so by simp
        qed
      qed
    qed
    have a6: "Undefined \<notin> set ?child"
      using Suc.prems(6) by (metis insertE jsval.distinct(5) set_update_subset_insert subsetD)
    have a7: "\<forall>k<Suc i. ?child ! k \<noteq> Null"
      using Suc.prems(7) il by (auto simp: less_Suc_eq nth_list_update)
    from Suc.hyps(1)[OF d a1 a2 a3 a4 a5 a6 a7] show ?thesis
      by (simp add: step)
  qed
qed

lemma rand_index_less:
  assumes "0 \<le> r" and "r < 1" and "0 < n"
  shows "rand_index r n < n"
proof -
  have "r * real n < real n" using assms by simp
  then have "\<lfloor>r * real n\<rfloor> < int n" by (simp add: floor_less_iff)
  moreover have "0 \<le> \<lfloor>r * real n\<rfloor>" using assms by simp
  ultimately show ?thesis unfolding rand_index_def by linarith
qed

lemma rand_index_zero: "rand_index r 0 = 0"
  by (simp add: rand_index_def)

lemma fold_js_set:
  assumes "\<forall>i\<in>set ks. i < length ch \<and> i < length p1"
  shows "fold (\<lambda>i ch. js_set ch i (js_read p1 i)) ks ch =
         map (\<lambda>k. if k \<in> set ks then Obj (p1 ! k) else ch ! k) [0..<length ch]"
  using assms
proof (induction ks arbitrary: ch)
  case Nil
  then show ?case by (simp add: map_nth)
next
  case (Cons i ks)
  let ?ch = "ch[i := Obj (p1 ! i)]"
  have s: "js_set ch i (js_read p1 i) = ?ch"
    using Cons.prems by (simp add: js_set_def js_read_def)
  have "\<forall>i\<in>set ks. i < length ?ch \<and> i < length p1" using Cons.prems by simp
  from Cons.IH[OF this] have
    "fold (\<lambda>i ch. js_set ch i (js_read p1 i)) ks ?ch =
       map (\<lambda>k. if k \<in> set ks then Obj (p1 ! k) else ?ch ! k) [0..<length ?ch]" .
  also have "\<dots> = map (\<lambda>k. if k \<in> set (i # ks) then Obj (p1 ! k) else ch ! k) [0..<length ch]"
    by (auto simp: nth_list_update)
  finally show ?case by (simp add: s)
qed

lemma objs_map_if:
  "objs (map (\<lambda>k. if P k then Obj (g k) else Null) ks) = map g (filter P ks)"
  by (induction ks) simp_all

lemma copy_segment_props:
  assumes mx: "mx < length p1" and dp: "distinct p1"
  shows "length (copy_segment p1 mn mx (replicate (length p1) Null)) = length p1"
    and "distinct (objs (copy_segment p1 mn mx (replicate (length p1) Null)))"
    and "set (objs (copy_segment p1 mn mx (replicate (length p1) Null))) \<subseteq> set p1"
    and "Undefined \<notin> set (copy_segment p1 mn mx (replicate (length p1) Null))"
proof -
  let ?n = "length p1"
  have "\<forall>i\<in>set [mn..<Suc mx]. i < length (replicate ?n Null) \<and> i < length p1"
    using mx by auto
  from fold_js_set[OF this] have
    "copy_segment p1 mn mx (replicate ?n Null) =
       map (\<lambda>k. if k \<in> set [mn..<Suc mx] then Obj (p1 ! k) else replicate ?n Null ! k) [0..<?n]"
    by (simp add: copy_segment_def)
  also have "\<dots> = map (\<lambda>k. if k \<in> set [mn..<Suc mx] then Obj (p1 ! k) else Null) [0..<?n]"
    by (rule map_cong) auto
  finally have eq: "copy_segment p1 mn mx (replicate ?n Null) =
       map (\<lambda>k. if k \<in> set [mn..<Suc mx] then Obj (p1 ! k) else Null) [0..<?n]" .
  show "length (copy_segment p1 mn mx (replicate ?n Null)) = ?n" by (simp add: eq)
  have o: "objs (copy_segment p1 mn mx (replicate ?n Null)) =
        map (nth p1) (filter (\<lambda>k. k \<in> set [mn..<Suc mx]) [0..<?n])"
    unfolding eq by (rule objs_map_if)
  have "inj_on (nth p1) (set (filter (\<lambda>k. k \<in> set [mn..<Suc mx]) [0..<?n]))"
    using dp by (intro inj_on_nth) auto
  then show "distinct (objs (copy_segment p1 mn mx (replicate ?n Null)))"
    unfolding o by (simp add: distinct_map)
  show "set (objs (copy_segment p1 mn mx (replicate ?n Null))) \<subseteq> set p1"
    unfolding o by auto
  show "Undefined \<notin> set (copy_segment p1 mn mx (replicate ?n Null))"
    unfolding eq by auto
qed

lemma perm_of_distinct_subset:
  assumes "distinct xs" and "distinct ys" and "set xs \<subseteq> set ys" and "length xs = length ys"
  shows "mset xs = mset ys"
proof -
  have "card (set xs) = card (set ys)" using assms by (simp add: distinct_card)
  then have "set xs = set ys" using assms(3) by (simp add: card_subset_eq)
  then show ?thesis using assms(1,2) by (simp add: set_eq_iff_mset_eq_distinct)
qed

lemma crossover_recombine:
  assumes ne: "path p1 \<noteq> []" and ids: "distinct (map city_id (path p1))"
    and same: "mset (path p2) = mset (path p1)"
    and mn: "mn \<le> mx" and mx: "mx < length (path p1)"
  shows "\<exists>child. fill_child (path p2) (length (path p1)) 0 0
             (copy_segment (path p1) mn mx (replicate (length (path p1)) Null)) = Inr (map Obj child)
           \<and> filter (\<lambda>c. c \<noteq> Null) (map Obj child) = map Obj child
           \<and> mset child = mset (path p1)"
proof -
  let ?n = "length (path p1)"
  let ?c = "copy_segment (path p1) mn mx (replicate ?n Null)"
  have dp1: "distinct (path p1)" using ids by (simp add: distinct_map)
  have "mset (map city_id (path p2)) = mset (map city_id (path p1))" using same by simp
  then have ids2: "distinct (map city_id (path p2))"
    using ids by (metis mset_eq_imp_distinct_iff)
  then have dp2: "distinct (path p2)" by (simp add: distinct_map)
  have lp2: "length (path p2) = ?n" using same by (metis size_mset)
  have sets: "set (path p2) = set (path p1)" using same by (metis set_mset_mset)
  note cs = copy_segment_props[OF mx dp1, of mn]
  have "\<exists>child'. fill_child (path p2) ?n 0 0 ?c = Inr child' \<and> length child' = ?n
            \<and> Null \<notin> set child' \<and> Undefined \<notin> set child'
            \<and> distinct (objs child') \<and> set (objs child') \<subseteq> set (path p2)"
    using cs sets by (intro fill_child_ok[OF ids2 lp2]) auto
  then obtain child' where c: "fill_child (path p2) ?n 0 0 ?c = Inr child'" "length child' = ?n"
    "Null \<notin> set child'" "Undefined \<notin> set child'" "distinct (objs child')"
    "set (objs child') \<subseteq> set (path p2)" by blast
  have m: "map Obj (objs child') = child'" using c(3,4) by (rule objs_all_Obj)
  then have "length (objs child') = ?n" using c(2) by (metis length_map)
  then have "mset (objs child') = mset (path p2)"
    using c(5,6) dp2 lp2 by (intro perm_of_distinct_subset) auto
  moreover have "filter (\<lambda>c. c \<noteq> Null) (map Obj (objs child')) = map Obj (objs child')"
    by (simp add: filter_map comp_def)
  ultimately show ?thesis using c(1) m same by (intro exI[of _ "objs child'"]) simp
qed

lemma crossover_perm:
  assumes ne: "path p1 \<noteq> []" and ids: "distinct (map city_id (path p1))"
    and same: "mset (path p2) = mset (path p1)" and u: "unit_draws rnd"
  shows "\<exists>child k'. crossover rate rnd k p1 p2 = Inr (map Obj child, k')
           \<and> mset child = mset (path p1)"
proof (cases "rate < rnd k")
  case True
  then have "crossover rate rnd k p1 p2 = Inr (map Obj (path p1), Suc k)"
    by (simp add: crossover_def)
  then show ?thesis by blast
next
  case False
  let ?n = "length (path p1)"
  let ?start = "rand_index (rnd (k + 1)) ?n"
  let ?end = "rand_index (rnd (k + 2)) ?n"
  have n: "0 < ?n" using ne by simp
  have lt: "?start < ?n" "?end < ?n"
    using u n by (simp_all add: unit_draws_def rand_index_less)
  show ?thesis
  proof (cases "?start < ?end")
    case True
    then have "?start \<le> ?end" by simp
    from crossover_recombine[OF ne ids same this lt(2)] obtain child where
      c: "fill_child (path p2) ?n 0 0 (copy_segment (path p1) ?start ?end (replicate ?n Null))
            = Inr (map Obj child)"
        "filter (\<lambda>c. c \<noteq> Null) (map Obj child) = map Obj child"
        "mset child = mset (path p1)" by blast
    have "crossover rate rnd k p1 p2 = Inr (map Obj child, k + 3)"
      using \<open>\<not> rate < rnd k\<close> True c(1,2) by (simp add: crossover_def Let_def)
    then show ?thesis using c(3) by blast
  next
    case False
    then have "?end \<le> ?start" by simp
    from crossover_recombine[OF ne ids same this lt(1)] obtain child where
      c: "fill_child (path p2) ?n 0 0 (copy_segment (path p1) ?end ?start (replicate ?n Null))
            = Inr (map Obj child)"
        "filter (\<lambda>c. c \<noteq> Null) (map Obj child) = map Obj child"
        "mset child = mset (path p1)" by blast
    have "crossover rate rnd k p1 p2 = Inr (map Obj child, k + 3)"
      using \<open>\<not> rate < rnd k\<close> False c(1,2) by (simp add: crossover_def Let_def)
    then show ?thesis using c(3) by blast
  qed
qed

lemma mutate_perm:
  assumes ne: "p \<noteq> []" and u: "unit_draws rnd"
  shows "\<exists>p' k'. mutate rate rnd k (map Obj p) = (map Obj p', k') \<and> mset p' = mset p"
proof (cases "rate < rnd k")
  case True
  then have "mutate rate rnd k (map Obj p) = (map Obj p, Suc k)"
    by (simp add: mutate_def)
  then show ?thesis by blast
next
  case False
  let ?n = "length p"
  let ?i = "rand_index (rnd (k + 1)) ?n"
  let ?j = "rand_index (rnd (k + 2)) ?n"
  have n: "0 < ?n" using ne by simp
  have ij: "?i < ?n" "?j < ?n"
    using u n by (simp_all add: unit_draws_def rand_index_less)
  have "js_set (js_set (map Obj p) ?i (js_get (map Obj p) ?j)) ?j (js_get (map Obj p) ?i)
        = map Obj (p[?i := p ! ?j, ?j := p ! ?i])"
    using ij by (simp add: js_set_def js_get_def map_update)
  then have "mutate rate rnd k (map Obj p) = (map Obj (p[?i := p ! ?j, ?j := p ! ?i]), k + 3)"
    using False by (simp add: mutate_def Let_def)
  moreover have "mset (p[?i := p ! ?j, ?j := p ! ?i]) = mset p"
    using ij by (simp add: mset_swap)
  ultimately show ?thesis by blast
qed

section \<open>The head of a sorted copy\<close>

lemma pure_cmp_apply: "pure_cmp f s a b = (f a b, s)"
  by (simp add: pure_cmp_def)

lemma js_sub_neg_iff: "js_lt (js_sub a b) (Fin 0) = js_lt a b"
  by (cases a; cases b) (simp_all add: js_sub_def)

lemma js_lt_trans: "js_lt a b \<Longrightarrow> js_lt b c \<Longrightarrow> js_lt a c"
  by (cases a; cases b; cases c) simp_all

lemma js_insert_pure_Cons:
  "js_insert (pure_cmp f) v (y # ys) () =
     (if before f v y then (v # y # ys, ())
      else (y # fst (js_insert (pure_cmp f) v ys ()), ()))"
proof -
  obtain zs where "js_insert (pure_cmp f) v ys () = (zs, ())"
    by (cases "js_insert (pure_cmp f) v ys ()") simp
  then show ?thesis
    by (simp only: js_insert.simps pure_cmp_apply before_def prod.case fst_conv)
qed

lemma set_js_insert: "set (fst (js_insert cmp v ys s)) = insert v (set ys)"
  using mset_js_insert[of cmp v ys s] by (metis set_mset_add_mset_insert set_mset_mset)

lemma js_insert_sorted:
  assumes tr: "transp (before f)" and asym: "asymp (before f)"
  shows "sorted_wrt (\<lambda>a b. \<not> before f b a) ys \<Longrightarrow>
         sorted_wrt (\<lambda>a b. \<not> before f b a) (fst (js_insert (pure_cmp f) v ys ()))"
proof (induction ys)
  case Nil
  then show ?case by simp
next
  case (Cons y ys)
  show ?case
  proof (cases "before f v y")
    case True
    have "\<not> before f z v" if "z \<in> set (y # ys)" for z
    proof (cases "z = y")
      case True
      then show ?thesis using \<open>before f v y\<close> asym by (auto dest: asympD)
    next
      case False
      then have "\<not> before f z y" using that Cons.prems by auto
      then show ?thesis using \<open>before f v y\<close> tr by (auto dest: transpD)
    qed
    then show ?thesis using True Cons.prems
      by (simp only: js_insert_pure_Cons if_True fst_conv sorted_wrt.simps) blast
  next
    case False
    let ?zs = "fst (js_insert (pure_cmp f) v ys ())"
    have s: "sorted_wrt (\<lambda>a b. \<not> before f b a) ?zs" using Cons.IH Cons.prems by simp
    have "set ?zs = insert v (set ys)" by (rule set_js_insert)
    then have "\<forall>z\<in>set ?zs. \<not> before f z y" using False Cons.prems by auto
    then show ?thesis using False s
      by (simp only: js_insert_pure_Cons if_False fst_conv sorted_wrt.simps)
  qed
qed

lemma js_sort_from_sorted:
  assumes tr: "transp (before f)" and asym: "asymp (before f)"
  shows "sorted_wrt (\<lambda>a b. \<not> before f b a) acc \<Longrightarrow>
         sorted_wrt (\<lambda>a b. \<not> before f b a) (fst (js_sort_from (pure_cmp f) acc vs ()))"
proof (induction vs arbitrary: acc)
  case Nil
  then show ?case by simp
next
  case (Cons v vs)
  obtain acc' where i: "js_insert (pure_cmp f) v acc () = (acc', ())"
    by (cases "js_insert (pure_cmp f) v acc ()") simp
  have "sorted_wrt (\<lambda>a b. \<not> before f b a) acc'"
    using js_insert_sorted[OF tr asym Cons.prems, of v] i by simp
  from Cons.IH[OF this] show ?case using i by simp
qed

lemma sorted_copy_head:
  assumes tr: "transp (before f)" and asym: "asymp (before f)"
    and c: "sorted_copy f vs = b # rest"
  shows "b \<in> set vs \<and> (\<forall>y\<in>set vs. \<not> before f y b)"
proof -
  have "sorted_wrt (\<lambda>a b. \<not> before f b a) (fst (js_sort_from (pure_cmp f) [] vs ()))"
    by (rule js_sort_from_sorted[OF tr asym]) simp
  then have "sorted_wrt (\<lambda>a b. \<not> before f b a) (b # rest)"
    using c by (simp add: sorted_copy_def js_sort_def)
  then have "\<forall>y\<in>set rest. \<not> before f y b" by simp
  moreover have "\<not> before f b b" using asym by (auto dest: asympD)
  moreover have "set vs = insert b (set rest)"
    using set_sorted_copy[of f vs] c by simp
  ultimately show ?thesis by auto
qed

lemma before_by_length_asc: "before by_length_asc a b = js_lt (length_val a) (length_val b)"
  by (simp add: before_def by_length_asc_def js_sub_neg_iff)


lemma by_length_asc_head:
  assumes "sorted_copy by_length_asc vs = b # rest"
  shows "b \<in> set vs \<and> (\<forall>y\<in>set vs. \<not> js_lt (length_val y) (length_val b))"
proof -
  have "transp (before by_length_asc)"
    by (rule transpI) (auto simp: before_by_length_asc intro: js_lt_trans)
  moreover have "asymp (before by_length_asc)"
    by (rule asympI) (auto simp: before_by_length_asc dest: js_lt_asym)
  ultimately show ?thesis
    using sorted_copy_head[OF _ _ assms] by (simp add: before_by_length_asc)
qed


section \<open>Valid individuals\<close>

lemma path_mk_individual: "path (mk_individual p) = p"
  by (simp add: mk_individual_def Let_def)

lemma length_val_mk_individual: "length_val (mk_individual p) = Fin (calculatePathLength p)"
  by (simp add: mk_individual_def Let_def)

lemma fitness_mk_individual:
  "fitness (mk_individual p) =
     (if calculatePathLength p = 0 then PInf
      else Fin (round_double (1 / calculatePathLength p)))"
  by (simp add: mk_individual_def Let_def calculateFitness_def)

lemma fitness_mk_individual_nonneg:
  "\<exists>f. fitness (mk_individual p) = f \<and> js_ge f (Fin 0)"
  using calculatePathLength_nonneg[of p] round_double_nonneg[of "1 / calculatePathLength p"]
  by (simp add: fitness_mk_individual)

lemma valid_mk_individual: "mset p = mset cs \<Longrightarrow> valid_individual cs (mk_individual p)"
  by (simp add: valid_individual_def path_mk_individual)

lemma initPopulation_valid:
  "length (fst (initPopulation rnd k cs n)) = n
   \<and> (\<forall>ind\<in>set (fst (initPopulation rnd k cs n)). valid_individual cs ind)"
proof (induction n arbitrary: k)
  case 0
  then show ?case by simp
next
  case (Suc n)
  obtain p k' where s: "js_sort (random_cmp rnd) cs k = (p, k')"
    by (cases "js_sort (random_cmp rnd) cs k")
  obtain rest k'' where r: "initPopulation rnd k' cs n = (rest, k'')"
    by (cases "initPopulation rnd k' cs n")
  have "mset p = mset cs" using mset_js_sort[of "random_cmp rnd" cs k] s by simp
  then have "valid_individual cs (mk_individual p)" by (rule valid_mk_individual)
  then show ?case using Suc.IH[of k'] s r by simp
qed


section \<open>Paths stay permutations\<close>

text \<open>
  Claim C10. For parents whose paths are permutations of the same cities, with distinct
  ids, and any segment \<open>mn \<le> mx\<close> inside the path (so that the path is not empty), the
  fill phase ends without a \<^verbatim>\<open>TypeError\<close>: no read of \<^verbatim>\<open>parent2.path[parent2Idx]\<close> is past the
  end, since the model throws at the first such read. Every entry of the array it returns
  is a city, and none is \<^verbatim>\<open>undefined\<close>, which a read past the end would have stored.
\<close>

theorem fill_child_in_range:
  assumes "distinct (map city_id (path parent1))"
    and "mset (path parent2) = mset (path parent1)"
    and "mn \<le> mx" and "mx < length (path parent1)"
  shows "\<exists>child. fill_child (path parent2) (length (path parent1)) 0 0
             (copy_segment (path parent1) mn mx (replicate (length (path parent1)) Null))
           = Inr (map Obj child)
           \<and> length child = length (path parent1)"
proof -
  have ne: "path parent1 \<noteq> []" using assms(4) by auto
  from crossover_recombine[OF ne assms] obtain child where
    c: "fill_child (path parent2) (length (path parent1)) 0 0
          (copy_segment (path parent1) mn mx (replicate (length (path parent1)) Null))
        = Inr (map Obj child)"
      "mset child = mset (path parent1)" by blast
  have "length child = length (path parent1)" using c(2) by (metis size_mset)
  then show ?thesis using c(1) by blast
qed

lemma abc_ids: "distinct (map city_id [city_a, city_b, city_c])"
  by (simp add: city_a_def city_b_def city_c_def)

theorem fill_child_in_range_witness:
  "distinct (map city_id (path tour_abc))
   \<and> mset (path tour_cba) = mset (path tour_abc)
   \<and> (1::nat) \<le> 1 \<and> 1 < length (path tour_abc)
   \<and> (\<exists>child. fill_child (path tour_cba) (length (path tour_abc)) 0 0
          (copy_segment (path tour_abc) 1 1 (replicate (length (path tour_abc)) Null))
        = Inr (map Obj child)
        \<and> length child = length (path tour_abc))"
proof -
  have h1: "distinct (map city_id (path tour_abc))"
    using abc_ids by (simp add: tour_abc_def path_mk_individual)
  have h2: "mset (path tour_cba) = mset (path tour_abc)"
    by (simp add: tour_abc_def tour_cba_def path_mk_individual)
  have h3: "(1::nat) \<le> 1" by simp
  have h4: "1 < length (path tour_abc)" by (simp add: tour_abc_def path_mk_individual)
  show ?thesis using fill_child_in_range[OF h1 h2 h3 h4] h1 h2 h4 by blast
qed

lemma fill_child_example:
  "fill_child [city_c, city_b, city_a] 3 0 0
     (copy_segment [city_a, city_b, city_c] 1 1 (replicate 3 Null))
   = Inr [Obj city_c, Obj city_b, Obj city_a]"
  by (simp add: copy_segment_def js_set_def js_read_def js_get_def numeral_3_eq_3
      fill_child.simps scan_parent2.simps abc_distinct city_a_def city_b_def city_c_def)

text \<open>
  Claim C1, as amended. Every path of an initial population is a permutation of the
  cities it was built from. For parents whose paths are permutations of the same cities,
  not empty and with distinct ids, \<^verbatim>\<open>crossover\<close> returns a permutation of those cities; for a
  path that is not empty, \<^verbatim>\<open>mutate\<close> returns a permutation of it. This holds for every rate
  and all draws in \<open>[0, 1)\<close>. A permutation has the same length and the same ids, each once.
\<close>

theorem tours_are_permutations:
  "(\<forall>ind\<in>set (fst (initPopulation rnd k cs n)).
       mset (path ind) = mset cs \<and> length (path ind) = length cs)
   \<and> (path parent1 \<noteq> [] \<and> distinct (map city_id (path parent1))
        \<and> mset (path parent2) = mset (path parent1) \<and> unit_draws rnd \<longrightarrow>
      (\<exists>child k'. crossover cr rnd k parent1 parent2 = Inr (map Obj child, k')
          \<and> mset child = mset (path parent1) \<and> length child = length (path parent1)
          \<and> distinct (map city_id child)))
   \<and> (p \<noteq> [] \<and> unit_draws rnd \<longrightarrow>
      (\<exists>p' k'. mutate mr rnd k (map Obj p) = (map Obj p', k')
          \<and> mset p' = mset p \<and> length p' = length p))"
proof (intro conjI ballI impI)
  fix ind assume "ind \<in> set (fst (initPopulation rnd k cs n))"
  then have "valid_individual cs ind" using initPopulation_valid[of rnd k cs n] by blast
  then show "mset (path ind) = mset cs" by (simp add: valid_individual_def)
  then show "length (path ind) = length cs" by (metis size_mset)
next
  assume a: "path parent1 \<noteq> [] \<and> distinct (map city_id (path parent1))
        \<and> mset (path parent2) = mset (path parent1) \<and> unit_draws rnd"
  then obtain child k' where
    c: "crossover cr rnd k parent1 parent2 = Inr (map Obj child, k')"
      "mset child = mset (path parent1)"
    using crossover_perm[of parent1 parent2 rnd cr k] by blast
  have "length child = length (path parent1)" using c(2) by (metis size_mset)
  moreover have "mset (map city_id child) = mset (map city_id (path parent1))"
    using c(2) by simp
  then have "distinct (map city_id child)" using a by (metis mset_eq_imp_distinct_iff)
  ultimately show "\<exists>child k'. crossover cr rnd k parent1 parent2 = Inr (map Obj child, k')
          \<and> mset child = mset (path parent1) \<and> length child = length (path parent1)
          \<and> distinct (map city_id child)"
    using c by blast
next
  assume "p \<noteq> [] \<and> unit_draws rnd"
  then obtain p' k' where m: "mutate mr rnd k (map Obj p) = (map Obj p', k')" "mset p' = mset p"
    using mutate_perm[of p rnd mr k] by blast
  have "length p' = length p" using m(2) by (metis size_mset)
  then show "\<exists>p' k'. mutate mr rnd k (map Obj p) = (map Obj p', k')
          \<and> mset p' = mset p \<and> length p' = length p"
    using m by blast
qed

lemma unit_draws_zero: "unit_draws (\<lambda>_. 0)"
  by (simp add: unit_draws_def)

theorem tours_are_permutations_witness:
  "list_all (\<lambda>ind. mset (path ind) = mset [city_a, city_b, city_c]
                \<and> length (path ind) = length [city_a, city_b, city_c])
     (fst (initPopulation (\<lambda>_. 0) 0 [city_a, city_b, city_c] 2))
   \<and> (\<exists>child k'. crossover (8 / 10) (\<lambda>_. 0) 0 tour_abc tour_cba = Inr (map Obj child, k')
        \<and> mset child = mset (path tour_abc) \<and> length child = length (path tour_abc)
        \<and> distinct (map city_id child))
   \<and> (\<exists>p' k'. mutate (5 / 100) (\<lambda>_. 0) 0 (map Obj [city_a, city_b, city_c]) = (map Obj p', k')
        \<and> mset p' = mset [city_a, city_b, city_c]
        \<and> length p' = length [city_a, city_b, city_c])"
proof -
  note t = tours_are_permutations[of "\<lambda>_. 0" 0 "[city_a, city_b, city_c]" 2
      tour_abc tour_cba "8 / 10" "[city_a, city_b, city_c]" "5 / 100"]
  have h: "path tour_abc \<noteq> [] \<and> distinct (map city_id (path tour_abc))
        \<and> mset (path tour_cba) = mset (path tour_abc) \<and> unit_draws (\<lambda>_. 0)"
    using abc_ids unit_draws_zero by (simp add: tour_abc_def tour_cba_def path_mk_individual)
  have "list_all (\<lambda>ind. mset (path ind) = mset [city_a, city_b, city_c]
                \<and> length (path ind) = length [city_a, city_b, city_c])
     (fst (initPopulation (\<lambda>_. 0) 0 [city_a, city_b, city_c] 2))"
    using t unfolding list_all_iff by blast
  moreover have "\<exists>child k'. crossover (8 / 10) (\<lambda>_. 0) 0 tour_abc tour_cba
          = Inr (map Obj child, k')
        \<and> mset child = mset (path tour_abc) \<and> length child = length (path tour_abc)
        \<and> distinct (map city_id child)"
    using t h by blast
  moreover have "\<exists>p' k'. mutate (5 / 100) (\<lambda>_. 0) 0 (map Obj [city_a, city_b, city_c])
          = (map Obj p', k')
        \<and> mset p' = mset [city_a, city_b, city_c]
        \<and> length p' = length [city_a, city_b, city_c]"
    using t unit_draws_zero by blast
  ultimately show ?thesis by blast
qed

text \<open>With all draws \<open>0\<close> the crossover recombines on the segment \<open>[0, 0]\<close> and the mutation
  swaps position \<open>0\<close> with itself.\<close>

lemma crossover_example:
  "crossover (8 / 10) (\<lambda>_. 0) 0 tour_abc tour_cba
     = Inr ([Obj city_a, Obj city_c, Obj city_b], 3)"
  by (simp add: crossover_def tour_abc_def tour_cba_def path_mk_individual rand_index_def
      copy_segment_def js_set_def js_read_def js_get_def numeral_3_eq_3
      fill_child.simps scan_parent2.simps abc_distinct city_a_def city_b_def city_c_def)

text \<open>
  The claim as it stands fails on the empty set of cities: with two parents whose paths are
  empty, a recombining \<^verbatim>\<open>crossover\<close> writes \<^verbatim>\<open>child[0] = parent1.path[0]\<close>, and a mutating
  \<^verbatim>\<open>mutate\<close> swaps \<^verbatim>\<open>newPath[0]\<close> with itself; both return an array of length one that holds
  \<^verbatim>\<open>undefined\<close>.
\<close>

theorem empty_tour_counterexample:
  "crossover (8 / 10) (\<lambda>_. 0) 0 \<lparr>path = [], fitness = PInf, length_val = Fin 0\<rparr>
      \<lparr>path = [], fitness = PInf, length_val = Fin 0\<rparr> = Inr ([Undefined], 3)
   \<and> mutate (5 / 100) (\<lambda>_. 0) 0 (map Obj []) = ([Undefined], 3)"
  by (simp add: crossover_def mutate_def rand_index_def copy_segment_def js_set_def
      js_read_def js_get_def fill_child.simps)

section \<open>One generation\<close>

lemma built_mk_individual:
  assumes "select rnd k pop = (Some p1, k1)" and "select rnd k1 pop = (Some p2, k2)"
    and "crossover (crossoverRate cfg) rnd k2 p1 p2 = Inr (crossed, k3)"
    and "mutate (mutationRate cfg) rnd k3 crossed = (map Obj c, k4)"
  shows "built cfg rnd pop k (mk_individual c) = Some k4"
  using assms by (simp add: built_def mk_individual_def Let_def calculateFitness_def)







text \<open>The step of the witness, computed: all draws are \<open>0\<close>, the child is built in eight draws.\<close>

lemma sorted_copy_pair:
  "sorted_copy by_fitness_desc pair_population = pair_population"
  "sorted_copy by_length_asc [mk_individual [city_a, city_b], mk_individual [city_a, city_b]]
     = [mk_individual [city_a, city_b], mk_individual [city_a, city_b]]"
  by (simp_all add: sorted_copy_def js_sort_def pure_cmp_apply by_fitness_desc_def by_length_asc_def
      pair_population_def fitness_ab fitness_ba js_sub_def length_val_mk_individual)

lemma select_first: "select (\<lambda>_. 0) k pair_population = (Some (mk_individual [city_a, city_b]), Suc k)"
  by (simp add: select_def totalFitness_def pair_population_def fitness_ab fitness_ba Let_def)

lemma crossover_ab:
  "0 \<le> rate \<Longrightarrow> crossover rate (\<lambda>_. 0) k (mk_individual [city_a, city_b]) (mk_individual [city_a, city_b])
     = Inr ([Obj city_a, Obj city_b], k + 3)"
  by (simp add: crossover_def path_mk_individual rand_index_def
      copy_segment_def js_set_def js_read_def js_get_def numeral_2_eq_2
      fill_child.simps scan_parent2.simps city_a_def city_b_def)

lemma mutate_ab:
  "0 \<le> rate \<Longrightarrow> mutate rate (\<lambda>_. 0) k [Obj city_a, Obj city_b] = ([Obj city_a, Obj city_b], k + 3)"
  by (simp add: mutate_def rand_index_def js_set_def js_get_def)

lemma pair_config_fields:
  "populationSize pair_config = 2" "crossoverRate pair_config = 8 / 10"
  "mutationRate pair_config = 5 / 100"
  by (simp_all add: pair_config_def default_config_def)

lemma breed_pair:
  "breed pair_config (\<lambda>_. 0) k pair_population = Inr (mk_individual [city_a, city_b], k + 8)"
  by (simp add: breed_def select_first crossover_ab mutate_ab pair_config_fields)

lemma refill_pair:
  "refill pair_config (\<lambda>_. 0) pair_population 0 [mk_individual [city_a, city_b]]
      = Inr ([mk_individual [city_a, city_b], mk_individual [city_a, city_b]], 8)"
proof -
  have "refill pair_config (\<lambda>_. 0) pair_population 8
          [mk_individual [city_a, city_b], mk_individual [city_a, city_b]]
        = Inr ([mk_individual [city_a, city_b], mk_individual [city_a, city_b]], 8)"
    by (subst refill.simps) (simp add: pair_config_fields)
  then show ?thesis
    by (subst refill.simps) (simp add: pair_config_fields breed_pair)
qed

lemma gaIteration_example:
  "gaIteration pair_config (\<lambda>_. 0) 0 pair_state pair_state =
     Inr (pair_state\<lparr>population := [mk_individual [city_a, city_b], mk_individual [city_a, city_b]],
            currentGen := 1\<rparr>, 8)"
proof -
  have f: "population pair_state = pair_population" "currentGen pair_state = 0"
    "bestIndividual pair_state = mk_individual [city_a, city_b]"
    by (simp_all add: pair_state_def)
  have e: "sorted_copy by_fitness_desc pair_population
      = mk_individual [city_a, city_b] # [mk_individual [city_b, city_a]]"
    by (simp add: sorted_copy_pair) (simp add: pair_population_def)
  show ?thesis
    by (simp add: gaIteration_def f e refill_pair sorted_copy_pair js_lt_irrefl)
qed

lemma built_pair:
  "built_chain pair_config (\<lambda>_. 0) pair_population 0 [mk_individual [city_a, city_b]] = Some 8"
proof -
  have "built pair_config (\<lambda>_. 0) pair_population 0 (mk_individual [city_a, city_b]) = Some 8"
  proof (rule built_mk_individual)
    show "select (\<lambda>_. 0) 0 pair_population = (Some (mk_individual [city_a, city_b]), Suc 0)"
      by (rule select_first)
    show "select (\<lambda>_. 0) (Suc 0) pair_population
        = (Some (mk_individual [city_a, city_b]), Suc (Suc 0))"
      by (rule select_first)
    show "crossover (crossoverRate pair_config) (\<lambda>_. 0) (Suc (Suc 0))
        (mk_individual [city_a, city_b]) (mk_individual [city_a, city_b])
        = Inr ([Obj city_a, Obj city_b], 5)"
      using crossover_ab[of "crossoverRate pair_config" "Suc (Suc 0)"]
      by (simp add: pair_config_fields)
    show "mutate (mutationRate pair_config) (\<lambda>_. 0) 5 [Obj city_a, Obj city_b]
        = (map Obj [city_a, city_b], 8)"
      using mutate_ab[of "mutationRate pair_config" 5] by (simp add: pair_config_fields)
  qed
  then show ?thesis by simp
qed

text \<open>
  The elite need not have the lowest length. The fitness is the double nearest to
  \<open>1 / length\<close>, and the lengths \<open>1022\<close> and \<open>1022 + 1 / 2 ^ 43\<close> share it: both quotients round to
  \<open>4512412933881984\<close> times \<open>2 powi (- 62)\<close>.
\<close>

lemma hypot_zero_right: "hypot dx 0 = \<bar>dx\<bar>"
  by (simp add: hypot_def)

lemma calculatePathLength_four:
  "calculatePathLength [a, b, c, d] =
     hypot (city_x b - city_x a) (city_y b - city_y a)
     + hypot (city_x c - city_x b) (city_y c - city_y b)
     + hypot (city_x d - city_x c) (city_y d - city_y c)
     + hypot (city_x a - city_x d) (city_y a - city_y d)"
  by (simp add: calculatePathLength_def edge_len_def Let_def)






lemma select_draw_zero:
  assumes "rnd k = 0" and "fitness ind = Fin f" and "0 \<le> f"
    and "totalFitness (ind # rest) = Fin t"
  shows "select rnd k (ind # rest) = (Some ind, Suc k)"
  using assms by (simp add: select_def Let_def)

lemma four_config_fields:
  "populationSize four_config = 2" "crossoverRate four_config = 8 / 10"
  "mutationRate four_config = 5 / 100"
  by (simp_all add: four_config_def default_config_def)









section \<open>Reset\<close>

lemma valid_length_le:
  assumes "valid_individual cs a" and "valid_individual cs b"
    and "\<not> js_lt (length_val b) (length_val a)"
  shows "calculatePathLength (path a) \<le> calculatePathLength (path b)"
proof -
  have "length_val a = Fin (calculatePathLength (path a))"
    "length_val b = Fin (calculatePathLength (path b))"
    using assms(1,2) by (metis valid_individual_def length_val_mk_individual)+
  then show ?thesis using assms(3) by simp
qed

lemma generateCities_props:
  "length (fst (generateCities rnd k n)) = n
   \<and> map city_id (fst (generateCities rnd k n)) = [0..<n]
   \<and> snd (generateCities rnd k n) = k + 2 * n"
  by (simp add: generateCities_def comp_def)

text \<open>
  Claim C9. With \<open>populationSize \<ge> 1\<close>, \<^verbatim>\<open>reset\<close> returns a state whose generation counter is
  \<open>0\<close>, with \<open>cityCount\<close> cities, a population of exactly \<open>populationSize\<close> individuals whose
  paths each hold exactly the \<open>cityCount\<close> cities, and a best-ever record that is an
  individual of that population of minimal length.
\<close>

theorem reset_state:
  assumes n: "0 < populationSize cfg"
  shows "\<exists>s k'. reset cfg rnd k = Inr (s, k')
           \<and> currentGen s = 0 \<and> isRunning s = False
           \<and> length (cities s) = cityCount cfg
           \<and> distinct (map city_id (cities s))
           \<and> length (population s) = populationSize cfg
           \<and> (\<forall>ind\<in>set (population s). valid_individual (cities s) ind
                  \<and> length (path ind) = cityCount cfg)
           \<and> bestIndividual s \<in> set (population s)
           \<and> (\<forall>ind\<in>set (population s).
                  \<not> js_lt (length_val ind) (length_val (bestIndividual s))
                  \<and> calculatePathLength (path (bestIndividual s))
                      \<le> calculatePathLength (path ind))"
proof -
  obtain newCities k1 where g: "generateCities rnd k (cityCount cfg) = (newCities, k1)"
    by (cases "generateCities rnd k (cityCount cfg)")
  obtain newPopulation k2 where
    i: "initPopulation rnd k1 newCities (populationSize cfg) = (newPopulation, k2)"
    by (cases "initPopulation rnd k1 newCities (populationSize cfg)")
  have lc: "length newCities = cityCount cfg" and dc: "distinct (map city_id newCities)"
    using generateCities_props[of rnd k "cityCount cfg"] g by simp_all
  have lp: "length newPopulation = populationSize cfg"
    and vp: "\<forall>ind\<in>set newPopulation. valid_individual newCities ind"
    using initPopulation_valid[of rnd k1 newCities "populationSize cfg"] i by simp_all
  have "newPopulation \<noteq> []" using n lp by auto
  then obtain initBest r where b: "sorted_copy by_length_asc newPopulation = initBest # r"
    using sorted_copy_nonempty by blast
  note bh = by_length_asc_head[OF b]
  let ?s = "\<lparr>cities = newCities, population = newPopulation,
             bestIndividual = initBest, currentGen = 0, isRunning = False\<rparr>"
  have res: "reset cfg rnd k = Inr (?s, k2)" by (simp add: reset_def g i b)
  have pl: "length (path ind) = cityCount cfg" if "ind \<in> set newPopulation" for ind
    using vp that lc by (metis valid_individual_def size_mset)
  have mn: "calculatePathLength (path initBest) \<le> calculatePathLength (path ind)"
    if "ind \<in> set newPopulation" for ind
    using valid_length_le[of newCities initBest ind] vp bh that by blast
  show ?thesis using res lc dc lp vp bh pl mn
    by (intro exI[of _ ?s] exI[of _ k2]) simp
qed

theorem reset_state_witness:
  "0 < populationSize pair_config
   \<and> (\<exists>s k'. reset pair_config (\<lambda>k. if k = 0 then 1 / 2 else 0) 0 = Inr (s, k')
           \<and> currentGen s = 0 \<and> isRunning s = False
           \<and> length (cities s) = cityCount pair_config
           \<and> distinct (map city_id (cities s))
           \<and> length (population s) = populationSize pair_config
           \<and> (\<forall>ind\<in>set (population s). valid_individual (cities s) ind
                  \<and> length (path ind) = cityCount pair_config)
           \<and> bestIndividual s \<in> set (population s)
           \<and> (\<forall>ind\<in>set (population s).
                  \<not> js_lt (length_val ind) (length_val (bestIndividual s))
                  \<and> calculatePathLength (path (bestIndividual s))
                      \<le> calculatePathLength (path ind)))"
proof -
  have h: "0 < populationSize pair_config"
    by (simp add: pair_config_def default_config_def)
  show ?thesis
    using reset_state[OF h, of "\<lambda>k. if k = 0 then 1 / 2 else 0" 0] h by blast
qed

section \<open>The run under the timer\<close>

lemma hypot_zero_left: "hypot 0 dy = \<bar>dy\<bar>"
  by (simp add: hypot_def)

lemma hypot_3_4: "\<bar>dx\<bar> = 3 \<Longrightarrow> \<bar>dy\<bar> = 4 \<Longrightarrow> hypot dx dy = 5"
proof -
  assume a: "\<bar>dx\<bar> = 3" "\<bar>dy\<bar> = 4"
  have "dx\<^sup>2 = \<bar>dx\<bar>\<^sup>2" "dy\<^sup>2 = \<bar>dy\<bar>\<^sup>2" by simp_all
  then have "dx\<^sup>2 + dy\<^sup>2 = 5\<^sup>2" using a by simp
  then have "hypot dx dy = sqrt (5\<^sup>2)" by (simp only: hypot_def)
  then show ?thesis by simp
qed

lemma rect_lengths:
  "calculatePathLength [rect_a, rect_c, rect_b, rect_d] = 18"
  "calculatePathLength [rect_a, rect_d, rect_b, rect_c] = 18"
  "calculatePathLength [rect_a, rect_b, rect_c, rect_d] = 14"
  "calculatePathLength [rect_a, rect_c, rect_d, rect_b] = 16"
  by (simp_all add: calculatePathLength_four hypot_zero_right hypot_zero_left hypot_3_4
      rect_a_def rect_b_def rect_c_def rect_d_def)

lemma rect_length_val:
  "length_val tour_acbd = Fin 18" "length_val tour_adbc = Fin 18"
  "length_val tour_abcd = Fin 14" "length_val tour_acdb = Fin 16"
  by (simp_all only: tour_acbd_def tour_adbc_def tour_abcd_def tour_acdb_def
      length_val_mk_individual rect_lengths)

lemma rect_fitness:
  "fitness tour_acbd = Fin (round_double (1 / 18))"
  "fitness tour_adbc = Fin (round_double (1 / 18))"
  by (simp_all add: tour_acbd_def tour_adbc_def fitness_mk_individual rect_lengths)

lemma rect_path:
  "path tour_acbd = [rect_a, rect_c, rect_b, rect_d]"
  by (simp add: tour_acbd_def path_mk_individual)

lemma select_rect:
  assumes "rnd k = 0"
  shows "select rnd k [tour_acbd, tour_adbc] = (Some tour_acbd, Suc k)"
proof -
  have "0 \<le> round_double (1 / 18)" by (rule round_double_nonneg) simp
  moreover have "totalFitness [tour_acbd, tour_adbc]
      = Fin (round_double (1 / 18) + round_double (1 / 18))"
    by (simp add: totalFitness_def rect_fitness)
  ultimately show ?thesis using assms rect_fitness(1) by (intro select_draw_zero)
qed

lemma sorted_copy_rect:
  "sorted_copy by_fitness_desc [tour_acbd, tour_adbc] = [tour_acbd, tour_adbc]"
  "sorted_copy by_length_asc [tour_acbd, tour_abcd] = [tour_abcd, tour_acbd]"
  "sorted_copy by_length_asc [tour_acbd, tour_acdb] = [tour_acdb, tour_acbd]"
  "sorted_copy by_length_asc [tour_acbd, tour_acbd] = [tour_acbd, tour_acbd]"
  by (simp_all add: sorted_copy_def js_sort_def pure_cmp_apply by_fitness_desc_def
      by_length_asc_def rect_fitness js_sub_def rect_length_val)

lemma crossover_skip_rect:
  "rect_draws k = 9 / 10 \<Longrightarrow>
   crossover (crossoverRate four_config) rect_draws k tour_acbd tour_acbd
     = Inr ([Obj rect_a, Obj rect_c, Obj rect_b, Obj rect_d], Suc k)"
  by (simp add: crossover_def four_config_fields rect_path)

lemma mutate_rect_first:
  "mutate (mutationRate four_config) rect_draws 3 [Obj rect_a, Obj rect_c, Obj rect_b, Obj rect_d]
     = ([Obj rect_a, Obj rect_b, Obj rect_c, Obj rect_d], 6)"
  by (simp add: mutate_def four_config_fields rect_draws_def rand_index_def js_set_def js_get_def)

lemma mutate_rect_second:
  "mutate (mutationRate four_config) rect_draws 9 [Obj rect_a, Obj rect_c, Obj rect_b, Obj rect_d]
     = ([Obj rect_a, Obj rect_c, Obj rect_d, Obj rect_b], 12)"
  by (simp add: mutate_def four_config_fields rect_draws_def rand_index_def js_set_def js_get_def)

lemma breed_rect_first:
  "breed four_config rect_draws 0 [tour_acbd, tour_adbc] = Inr (tour_abcd, 6)"
proof -
  have s0: "select rect_draws 0 [tour_acbd, tour_adbc] = (Some tour_acbd, Suc 0)"
    by (rule select_rect) (simp add: rect_draws_def)
  have s1: "select rect_draws (Suc 0) [tour_acbd, tour_adbc] = (Some tour_acbd, Suc (Suc 0))"
    by (rule select_rect) (simp add: rect_draws_def)
  have c: "crossover (crossoverRate four_config) rect_draws (Suc (Suc 0)) tour_acbd tour_acbd
     = Inr ([Obj rect_a, Obj rect_c, Obj rect_b, Obj rect_d], 3)"
    using crossover_skip_rect[of "Suc (Suc 0)"] by (simp add: rect_draws_def numeral_3_eq_3)
  show ?thesis
    by (simp add: breed_def s0 s1 c mutate_rect_first cities_of_map_Obj tour_abcd_def)
qed

lemma breed_rect_second:
  "breed four_config rect_draws 6 [tour_acbd, tour_adbc] = Inr (tour_acdb, 12)"
proof -
  have s0: "select rect_draws 6 [tour_acbd, tour_adbc] = (Some tour_acbd, 7)"
    using select_rect[of rect_draws 6] by (simp add: rect_draws_def)
  have s1: "select rect_draws 7 [tour_acbd, tour_adbc] = (Some tour_acbd, 8)"
    using select_rect[of rect_draws 7] by (simp add: rect_draws_def)
  have c: "crossover (crossoverRate four_config) rect_draws 8 tour_acbd tour_acbd
     = Inr ([Obj rect_a, Obj rect_c, Obj rect_b, Obj rect_d], 9)"
    using crossover_skip_rect[of 8] by (simp add: rect_draws_def)
  show ?thesis
    by (simp add: breed_def s0 s1 c mutate_rect_second cities_of_map_Obj tour_acdb_def)
qed

lemma refill_rect_first:
  "refill four_config rect_draws [tour_acbd, tour_adbc] 0 [tour_acbd]
     = Inr ([tour_acbd, tour_abcd], 6)"
proof -
  have "refill four_config rect_draws [tour_acbd, tour_adbc] 6 [tour_acbd, tour_abcd]
      = Inr ([tour_acbd, tour_abcd], 6)"
    by (subst refill.simps) (simp add: four_config_fields)
  then show ?thesis
    by (subst refill.simps) (simp add: four_config_fields breed_rect_first)
qed

lemma refill_rect_second:
  "refill four_config rect_draws [tour_acbd, tour_adbc] 6 [tour_acbd]
     = Inr ([tour_acbd, tour_acdb], 12)"
proof -
  have "refill four_config rect_draws [tour_acbd, tour_adbc] 12 [tour_acbd, tour_acdb]
      = Inr ([tour_acbd, tour_acdb], 12)"
    by (subst refill.simps) (simp add: four_config_fields)
  then show ?thesis
    by (subst refill.simps) (simp add: four_config_fields breed_rect_second)
qed

lemma rect_state_fields:
  "population rect_state = [tour_acbd, tour_adbc]" "currentGen rect_state = 0"
  "bestIndividual rect_state = tour_acbd"
  by (simp_all add: rect_state_def)

lemma gaIteration_rect_first:
  "gaIteration four_config rect_draws 0 rect_state st
     = Inr (st\<lparr>population := [tour_acbd, tour_abcd], bestIndividual := tour_abcd,
              currentGen := currentGen st + 1\<rparr>, 6)"
  by (simp add: gaIteration_def rect_state_fields sorted_copy_rect refill_rect_first
      rect_length_val)

lemma gaIteration_rect_second:
  "gaIteration four_config rect_draws 6 rect_state st
     = Inr (st\<lparr>population := [tour_acbd, tour_acdb], bestIndividual := tour_acdb,
              currentGen := currentGen st + 1\<rparr>, 12)"
  by (simp add: gaIteration_def rect_state_fields sorted_copy_rect refill_rect_second
      rect_length_val)

lemma toggleRun_rect:
  "toggleRun (rect_state, None) = (rect_state\<lparr>isRunning := True\<rparr>, Some rect_state)"
  by (simp add: toggleRun_def rect_state_def)

text \<open>
  Claim C2. The test \<^verbatim>\<open>currentBest.length < bestIndividual.length\<close> reads the record of the
  render in which the run was started, at every tick of the timer, and not the record the
  tick before has stored. From a store whose record has length \<open>18\<close>, the first tick of the
  run stores a record of length \<open>14\<close>; the best of the second generation has length \<open>16\<close>,
  which is below the \<open>18\<close> the closure still reads, and the second tick stores it over the
  shorter one. The length of the stored best-ever record goes up from \<open>14\<close> to \<open>16\<close>.
\<close>

theorem best_record_grows:
  "ticks four_config rect_draws 1 0 (toggleRun (rect_state, None))
     = Inr ((rect_state\<lparr>isRunning := True, population := [tour_acbd, tour_abcd],
               bestIndividual := tour_abcd, currentGen := 1\<rparr>, Some rect_state), 6)
   \<and> ticks four_config rect_draws 2 0 (toggleRun (rect_state, None))
     = Inr ((rect_state\<lparr>isRunning := True, population := [tour_acbd, tour_acdb],
               bestIndividual := tour_acdb, currentGen := 2\<rparr>, Some rect_state), 12)
   \<and> length_val (bestIndividual rect_state) = Fin 18
   \<and> length_val tour_abcd = Fin 14
   \<and> length_val tour_acdb = Fin 16"
  by (simp add: toggleRun_rect numeral_2_eq_2 tick_def gaIteration_rect_first
      gaIteration_rect_second rect_length_val rect_state_fields)

text \<open>A closure made at or above the ceiling only clears \<^verbatim>\<open>isRunning\<close>.\<close>

lemma gaIteration_at_ceiling:
  "1000 \<le> currentGen cl \<Longrightarrow> gaIteration cfg rnd k cl st = Inr (st\<lparr>isRunning := False\<rparr>, k)"
  by (simp add: gaIteration_def)

lemma crossover_rect_zero:
  "crossover (crossoverRate four_config) (\<lambda>_. 0) k tour_acbd tour_acbd
     = Inr ([Obj rect_a, Obj rect_c, Obj rect_b, Obj rect_d], k + 3)"
  by (simp add: crossover_def four_config_fields rect_path rand_index_def
      copy_segment_def js_set_def js_read_def js_get_def numeral_3_eq_3 numeral_eq_Suc
      fill_child.simps scan_parent2.simps rect_a_def rect_b_def rect_c_def rect_d_def)

lemma mutate_rect_zero:
  "mutate (mutationRate four_config) (\<lambda>_. 0) k [Obj rect_a, Obj rect_c, Obj rect_b, Obj rect_d]
     = ([Obj rect_a, Obj rect_c, Obj rect_b, Obj rect_d], k + 3)"
  by (simp add: mutate_def four_config_fields rand_index_def js_set_def js_get_def)

lemma breed_rect_zero:
  "breed four_config (\<lambda>_. 0) k [tour_acbd, tour_adbc] = Inr (tour_acbd, k + 8)"
proof -
  have s: "select (\<lambda>_. 0) j [tour_acbd, tour_adbc] = (Some tour_acbd, Suc j)" for j
    by (rule select_rect) simp
  have p: "mk_individual [rect_a, rect_c, rect_b, rect_d] = tour_acbd"
    by (simp add: tour_acbd_def)
  show ?thesis
    by (simp add: breed_def s crossover_rect_zero mutate_rect_zero p)
qed

lemma refill_rect_zero:
  "refill four_config (\<lambda>_. 0) [tour_acbd, tour_adbc] k [tour_acbd]
     = Inr ([tour_acbd, tour_acbd], k + 8)"
proof -
  have "refill four_config (\<lambda>_. 0) [tour_acbd, tour_adbc] (k + 8) [tour_acbd, tour_acbd]
      = Inr ([tour_acbd, tour_acbd], k + 8)"
    by (subst refill.simps) (simp add: four_config_fields)
  then show ?thesis
    by (subst refill.simps) (simp add: four_config_fields breed_rect_zero)
qed

lemma gaIteration_rect_zero:
  "gaIteration four_config (\<lambda>_. 0) k rect_state st
     = Inr (st\<lparr>population := [tour_acbd, tour_acbd], currentGen := currentGen st + 1\<rparr>, k + 8)"
  by (simp add: gaIteration_def rect_state_fields sorted_copy_rect refill_rect_zero
      rect_length_val)

lemma ticks_rect_zero:
  "ticks four_config (\<lambda>_. 0) (Suc n) k (st, Some rect_state)
     = Inr ((st\<lparr>population := [tour_acbd, tour_acbd], currentGen := currentGen st + Suc n\<rparr>,
             Some rect_state), k + 8 * Suc n)"
proof (induction n arbitrary: k st)
  case 0
  then show ?case by (simp add: tick_def gaIteration_rect_zero)
next
  case (Suc n)
  have step: "ticks four_config (\<lambda>_. 0) (Suc (Suc n)) k (st, Some rect_state)
      = ticks four_config (\<lambda>_. 0) (Suc n) (k + 8)
          (st\<lparr>population := [tour_acbd, tour_acbd], currentGen := currentGen st + 1\<rparr>,
           Some rect_state)"
    by (simp add: tick_def gaIteration_rect_zero)
  show ?case unfolding step Suc.IH by simp
qed

text \<open>
  Claim C6. The test \<^verbatim>\<open>currentGen >= 1000\<close> reads the counter of the render in which the run
  was started, while \<^verbatim>\<open>setCurrentGen(prev => prev + 1)\<close> advances the counter of the store.
  A run started at generation \<open>0\<close> reaches the counter \<open>1000\<close> after a thousand ticks, and
  the tick that comes then runs a full generation: it draws, stores a population and
  advances the counter to \<open>1001\<close>, and \<^verbatim>\<open>isRunning\<close> stays set.
\<close>

theorem ceiling_overrun:
  "ticks four_config (\<lambda>_. 0) 1000 0 (toggleRun (rect_state, None))
     = Inr ((rect_state\<lparr>isRunning := True, population := [tour_acbd, tour_acbd],
               currentGen := 1000\<rparr>, Some rect_state), 8000)
   \<and> tick four_config (\<lambda>_. 0) 8000
       (rect_state\<lparr>isRunning := True, population := [tour_acbd, tour_acbd],
          currentGen := 1000\<rparr>, Some rect_state)
     = Inr ((rect_state\<lparr>isRunning := True, population := [tour_acbd, tour_acbd],
               currentGen := 1001\<rparr>, Some rect_state), 8008)"
proof -
  have "ticks four_config (\<lambda>_. 0) (Suc 999) 0 (rect_state\<lparr>isRunning := True\<rparr>, Some rect_state)
     = Inr ((rect_state\<lparr>isRunning := True, population := [tour_acbd, tour_acbd],
               currentGen := 1000\<rparr>, Some rect_state), 8000)"
    by (simp only: ticks_rect_zero) (simp add: rect_state_def)
  then have a: "ticks four_config (\<lambda>_. 0) 1000 0 (toggleRun (rect_state, None))
     = Inr ((rect_state\<lparr>isRunning := True, population := [tour_acbd, tour_acbd],
               currentGen := 1000\<rparr>, Some rect_state), 8000)"
    by (simp only: toggleRun_rect) simp
  have b: "tick four_config (\<lambda>_. 0) 8000
       (rect_state\<lparr>isRunning := True, population := [tour_acbd, tour_acbd],
          currentGen := 1000\<rparr>, Some rect_state)
     = Inr ((rect_state\<lparr>isRunning := True, population := [tour_acbd, tour_acbd],
               currentGen := 1001\<rparr>, Some rect_state), 8008)"
    by (simp add: tick_def gaIteration_rect_zero)
  show ?thesis using a b by (rule conjI)
qed

end
